theory Spec2Isabelle
  imports Main
begin

section \<open>Exceptions and responses\<close>

text \<open>
  The application (\<^verbatim>\<open>src/app.py\<close>) is a Flask service over three SQLAlchemy tables.
  A handler either returns a JSON body with an HTTP status, or an exception leaves it.
  No handler and no \<^verbatim>\<open>errorhandler\<close> of the application catches an exception, so an
  exception is the outcome of the request; it is the \<open>Inl\<close> branch of a handler's result.
  \<open>ValueError\<close> is raised by the handlers themselves and by \<^verbatim>\<open>int()\<close>, \<open>KeyError\<close> by a
  data frame that has no such column, \<open>AttributeError\<close> by an attribute read on \<^verbatim>\<open>None\<close>,
  \<open>OverflowError\<close> by date arithmetic that leaves the range of \<^verbatim>\<open>datetime.date\<close>, and
  \<open>IntegrityError\<close> by a commit that violates a uniqueness constraint of the schema.

  The module is read as Python 3.12 reads it (the f-string of \<^verbatim>\<open>total_by_month\<close> nests its
  own quote character). What the libraries do is written out where a handler depends on
  it: \<^verbatim>\<open>datetime\<close> for dates, \<^verbatim>\<open>int\<close> and \<^verbatim>\<open>str\<close> for amounts, the data frame of pandas as
  the list of its rows, the session of SQLAlchemy as the tables it commits to, and the
  identity of a verified token as the integer id it was created with.
\<close>

datatype error = ValueError | KeyError | AttributeError | OverflowError | IntegrityError

definition and_then :: "error + 'a \<Rightarrow> ('a \<Rightarrow> error + 'b) \<Rightarrow> error + 'b" where
  "and_then m f = (case m of Inl e \<Rightarrow> Inl e | Inr x \<Rightarrow> f x)"

section \<open>Calendar dates\<close>

text \<open>
  \<^verbatim>\<open>datetime.date\<close> of the Python standard library: a year, a month and a day, ordered as
  that triple. The conversions to and from the proleptic Gregorian ordinal follow the
  library's \<^verbatim>\<open>_ymd2ord\<close> and \<^verbatim>\<open>_ord2ymd\<close>, including the two tables; \<open>div\<close> and \<open>mod\<close>
  on \<open>int\<close> round towards minus infinity as Python's \<^verbatim>\<open>//\<close> and \<^verbatim>\<open>%\<close> do, and the shift
  \<^verbatim>\<open>(n + 50) >> 5\<close> is a division by 32.
\<close>

record date =
  year :: int
  month :: int
  day :: int

definition DAYS_IN_MONTH :: "int list" where
  "DAYS_IN_MONTH = [-1, 31, 28, 31, 30, 31, 30, 31, 31, 30, 31, 30, 31]"

definition DAYS_BEFORE_MONTH :: "int list" where
  "DAYS_BEFORE_MONTH = [-1, 0, 31, 59, 90, 120, 151, 181, 212, 243, 273, 304, 334]"

definition MAXORDINAL :: int where
  "MAXORDINAL = 3652059"

definition is_leap :: "int \<Rightarrow> bool" where
  "is_leap y = (y mod 4 = 0 \<and> (y mod 100 \<noteq> 0 \<or> y mod 400 = 0))"

definition days_before_year :: "int \<Rightarrow> int" where
  "days_before_year y = (let y1 = y - 1 in y1 * 365 + y1 div 4 - y1 div 100 + y1 div 400)"

definition days_in_month :: "int \<Rightarrow> int \<Rightarrow> int" where
  "days_in_month y m = (if m = 2 \<and> is_leap y then 29 else DAYS_IN_MONTH ! nat m)"

definition days_before_month :: "int \<Rightarrow> int \<Rightarrow> int" where
  "days_before_month y m = DAYS_BEFORE_MONTH ! nat m + (if m > 2 \<and> is_leap y then 1 else 0)"

definition ymd2ord :: "int \<Rightarrow> int \<Rightarrow> int \<Rightarrow> int" where
  "ymd2ord y m d = days_before_year y + days_before_month y m + d"

text \<open>The month estimate of \<^verbatim>\<open>_ord2ymd\<close> and its correction by one, with the days that
  precede the month found.\<close>

definition month_of_yday :: "bool \<Rightarrow> int \<Rightarrow> int \<times> int" where
  "month_of_yday leapyear n =
     (let m = (n + 50) div 32;
          preceding = DAYS_BEFORE_MONTH ! nat m + (if m > 2 \<and> leapyear then 1 else 0)
      in if preceding > n
         then (m - 1, preceding - (DAYS_IN_MONTH ! nat (m - 1) + (if m - 1 = 2 \<and> leapyear then 1 else 0)))
         else (m, preceding))"

definition ord2ymd :: "int \<Rightarrow> int \<times> int \<times> int" where
  "ord2ymd n0 =
     (let n = n0 - 1;
          n400 = n div 146097; n = n mod 146097;
          n100 = n div 36524; n = n mod 36524;
          n4 = n div 1461; n = n mod 1461;
          n1 = n div 365; n = n mod 365;
          y = n400 * 400 + 1 + n100 * 100 + n4 * 4 + n1
      in if n1 = 4 \<or> n100 = 4 then (y - 1, 12, 31)
         else let leapyear = (n1 = 3 \<and> (n4 \<noteq> 24 \<or> n100 = 3));
                  (m, preceding) = month_of_yday leapyear n
              in (y, m, n - preceding + 1))"

text \<open>The dates the constructor of \<^verbatim>\<open>datetime.date\<close> accepts (\<^verbatim>\<open>MINYEAR = 1\<close>,
  \<^verbatim>\<open>MAXYEAR = 9999\<close>).\<close>

definition valid_date :: "date \<Rightarrow> bool" where
  "valid_date d = (1 \<le> year d \<and> year d \<le> 9999 \<and> 1 \<le> month d \<and> month d \<le> 12
                   \<and> 1 \<le> day d \<and> day d \<le> days_in_month (year d) (month d))"

definition toordinal :: "date \<Rightarrow> int" where
  "toordinal d = ymd2ord (year d) (month d) (day d)"

definition fromordinal :: "int \<Rightarrow> date" where
  "fromordinal n = (case ord2ymd n of (y, m, d) \<Rightarrow> \<lparr>year = y, month = m, day = d\<rparr>)"

text \<open>\<^verbatim>\<open>d.weekday()\<close>: Monday is 0 and Sunday is 6.\<close>

definition weekday :: "date \<Rightarrow> int" where
  "weekday d = (toordinal d + 6) mod 7"

text \<open>\<^verbatim>\<open>d - timedelta(days=n)\<close>: the date \<open>n\<close> days earlier, or \<^verbatim>\<open>OverflowError\<close> when the
  ordinal leaves \<open>1 .. MAXORDINAL\<close>.\<close>

definition sub_days :: "date \<Rightarrow> int \<Rightarrow> error + date" where
  "sub_days d n =
     (let ord = toordinal d - n
      in if 0 < ord \<and> ord \<le> MAXORDINAL then Inr (fromordinal ord) else Inl OverflowError)"

text \<open>\<^verbatim>\<open>d.replace(day=k)\<close> builds a new date and validates it.\<close>

definition replace_day :: "date \<Rightarrow> int \<Rightarrow> error + date" where
  "replace_day d k =
     (if 1 \<le> k \<and> k \<le> days_in_month (year d) (month d) then Inr (d\<lparr>day := k\<rparr>) else Inl ValueError)"

text \<open>The comparisons \<^verbatim>\<open><\<close> and \<^verbatim>\<open><=\<close> of two dates.\<close>

definition date_lt :: "date \<Rightarrow> date \<Rightarrow> bool" where
  "date_lt a b = (year a < year b \<or> (year a = year b \<and>
                   (month a < month b \<or> (month a = month b \<and> day a < day b))))"

definition date_le :: "date \<Rightarrow> date \<Rightarrow> bool" where
  "date_le a b = (year a < year b \<or> (year a = year b \<and>
                   (month a < month b \<or> (month a = month b \<and> day a \<le> day b))))"

text \<open>\<^verbatim>\<open>strftime("%B")\<close> in the C locale: the English name of the month of a valid date.\<close>

definition MONTH_NAMES :: "string list" where
  "MONTH_NAMES = [''January'', ''February'', ''March'', ''April'', ''May'', ''June'', ''July'',
                  ''August'', ''September'', ''October'', ''November'', ''December'']"

definition month_name :: "date \<Rightarrow> string" where
  "month_name d = MONTH_NAMES ! nat (month d - 1)"

section \<open>Strings and integers\<close>

text \<open>
  Strings are ASCII texts. \<^verbatim>\<open>s.replace("$", "")\<close> removes every occurrence of the one
  character. \<^verbatim>\<open>int(s)\<close> skips white space at both ends, reads an optional sign and then
  decimal digits, which single underscores may separate; anything else, no digit at all, or
  more than 4300 digits (the interpreter's limit on the conversion) is a \<^verbatim>\<open>ValueError\<close>.
  \<^verbatim>\<open>str(n)\<close>, which the f-strings apply to the total, writes the decimal digits after a
  minus sign for a negative number, and is a \<^verbatim>\<open>ValueError\<close> as well when the number has
  more than 4300 digits.
\<close>

definition strip_dollar :: "string \<Rightarrow> string" where
  "strip_dollar s = filter (\<lambda>c. c \<noteq> CHR ''$'') s"

definition is_space :: "char \<Rightarrow> bool" where
  "is_space c = (c = CHR '' '' \<or> c = CHR 0x09 \<or> c = CHR 0x0A \<or> c = CHR 0x0B
                 \<or> c = CHR 0x0C \<or> c = CHR 0x0D)"

definition is_digit :: "char \<Rightarrow> bool" where
  "is_digit c = (48 \<le> (of_char c :: nat) \<and> (of_char c :: nat) \<le> 57)"

definition digit_value :: "char \<Rightarrow> int" where
  "digit_value c = int (of_char c) - 48"

fun double_underscore :: "string \<Rightarrow> bool" where
  "double_underscore (a # b # cs) = ((a = CHR ''_'' \<and> b = CHR ''_'') \<or> double_underscore (b # cs))"
| "double_underscore cs = False"

definition decimal_value :: "string \<Rightarrow> int" where
  "decimal_value ds = foldl (\<lambda>acc c. 10 * acc + digit_value c) 0 ds"

definition MAX_STR_DIGITS :: nat where
  "MAX_STR_DIGITS = 4300"

definition split_sign :: "string \<Rightarrow> int \<times> string" where
  "split_sign s = (case s of
                     c # cs \<Rightarrow> if c = CHR ''+'' then (1, cs)
                               else if c = CHR ''-'' then (- 1, cs) else (1, s)
                   | [] \<Rightarrow> (1, s))"

definition read_digits :: "int \<Rightarrow> string \<Rightarrow> error + int" where
  "read_digits sign s =
     (let body = takeWhile (\<lambda>c. is_digit c \<or> c = CHR ''_'') s;
          rest = dropWhile (\<lambda>c. is_digit c \<or> c = CHR ''_'') s;
          ds = filter is_digit body
      in if body = [] \<or> hd body = CHR ''_'' \<or> last body = CHR ''_'' \<or> double_underscore body
            \<or> length ds > MAX_STR_DIGITS \<or> dropWhile is_space rest \<noteq> []
         then Inl ValueError
         else Inr (sign * decimal_value ds))"

definition py_int :: "string \<Rightarrow> error + int" where
  "py_int s = (case split_sign (dropWhile is_space s) of (sign, s2) \<Rightarrow> read_digits sign s2)"

definition digit_char :: "nat \<Rightarrow> char" where
  "digit_char n = ''0123456789'' ! n"

function nat_digits :: "nat \<Rightarrow> string" where
  "nat_digits n = (if n < 10 then [digit_char n] else nat_digits (n div 10) @ [digit_char (n mod 10)])"
  by pat_completeness auto
termination
  by (relation "measure id") auto

declare nat_digits.simps [simp del]

definition int_text :: "int \<Rightarrow> string" where
  "int_text i = (if i < 0 then CHR ''-'' # nat_digits (nat (- i)) else nat_digits (nat i))"

definition py_str :: "int \<Rightarrow> error + string" where
  "py_str i = (if length (nat_digits (nat \<bar>i\<bar>)) > MAX_STR_DIGITS then Inl ValueError
               else Inr (int_text i))"

text \<open>\<^verbatim>\<open>"".join(dict.fromkeys(s))\<close>: a dictionary keeps its keys in insertion order, and
  iterating a string yields its characters, so each character of \<open>s\<close> is kept at its first
  occurrence.\<close>

fun fromkeys_onto :: "'a list \<Rightarrow> 'a list \<Rightarrow> 'a list" where
  "fromkeys_onto seen [] = seen"
| "fromkeys_onto seen (x # xs) = fromkeys_onto (if x \<in> set seen then seen else seen @ [x]) xs"

definition fromkeys :: "'a list \<Rightarrow> 'a list" where
  "fromkeys xs = fromkeys_onto [] xs"

section \<open>The tables\<close>

text \<open>
  The three models of the schema, and the database as the rows of each table in the
  order of their insertion. A password hash is kept symbolically: the salt drawn by
  \<^verbatim>\<open>generate_password_hash\<close> and the password it was made from, which
  \<^verbatim>\<open>check_password_hash\<close> compares. The declared widths of the string columns are not
  enforced, and a text is stored as it is given.
\<close>

datatype pwhash = Hash string string

record user =
  u_id :: int
  u_name :: string
  u_email :: string
  u_password_hash :: pwhash

record expense =
  e_id :: int
  e_date :: date
  e_description :: string
  e_amount :: string
  e_category_id :: int
  e_user_id :: int

record category =
  c_id :: int
  c_name :: string

record db =
  users :: "user list"
  expenses :: "expense list"
  categories :: "category list"

definition empty_db :: db where
  "empty_db = \<lparr>users = [], expenses = [], categories = []\<rparr>"

text \<open>The integer primary key of a new row: one more than the largest in the table.\<close>

definition next_id :: "int list \<Rightarrow> int" where
  "next_id ids = fold max ids 0 + 1"

definition set_password :: "string \<Rightarrow> string \<Rightarrow> pwhash" where
  "set_password salt password = Hash salt password"

definition check_password :: "user \<Rightarrow> string \<Rightarrow> bool" where
  "check_password u password = (case u_password_hash u of Hash salt p \<Rightarrow> p = password)"

text \<open>
  A JSON body is the list of its keys with their values; \<^verbatim>\<open>not data\<close> holds of the empty
  object and \<^verbatim>\<open>k in data\<close> looks the key up. A response is a body and its status, 200
  where the handler names none.
\<close>

type_synonym 'v json = "(string \<times> 'v) list"

definition has_key :: "'v json \<Rightarrow> string \<Rightarrow> bool" where
  "has_key data k = (map_of data k \<noteq> None)"

definition get_key :: "'v json \<Rightarrow> string \<Rightarrow> error + 'v" where
  "get_key data k = (case map_of data k of None \<Rightarrow> Inl KeyError | Some v \<Rightarrow> Inr v)"

record row =
  r_id :: int
  r_date :: date
  r_description :: string
  r_amount :: string
  r_category :: string

datatype body =
    Token int
  | Message string
  | Text string
  | Record row
  | Rows "row list"
  | Total string

type_synonym response = "body \<times> nat"

section \<open>Registration and login\<close>

text \<open>
  \<^verbatim>\<open>register\<close> adds the user and commits; the column \<^verbatim>\<open>email\<close> is declared
  \<^verbatim>\<open>unique=True\<close>, so the commit of a second row with the same email raises
  \<^verbatim>\<open>IntegrityError\<close> and stores nothing. The token carries the user's id.
\<close>

definition register :: "string \<Rightarrow> string json \<Rightarrow> db \<Rightarrow> (error + response) \<times> db" where
  "register salt data s =
     (if data = [] \<or> \<not> has_key data ''name'' \<or> \<not> has_key data ''email''
         \<or> \<not> has_key data ''password''
      then (Inl ValueError, s)
      else case (map_of data ''name'', map_of data ''email'', map_of data ''password'') of
        (Some name, Some email, Some password) \<Rightarrow>
          (let u = \<lparr>u_id = next_id (map u_id (users s)), u_name = name, u_email = email,
                    u_password_hash = set_password salt password\<rparr>
           in if email \<in> set (map u_email (users s))
              then (Inl IntegrityError, s)
              else (Inr (Token (u_id u), 200), s\<lparr>users := users s @ [u]\<rparr>))
      | _ \<Rightarrow> (Inl ValueError, s))"

text \<open>
  \<^verbatim>\<open>login\<close> reads \<^verbatim>\<open>user.id\<close> for the token before it tests \<^verbatim>\<open>user\<close>: with no row for
  the email, \<^verbatim>\<open>first()\<close> is \<^verbatim>\<open>None\<close> and the read raises \<^verbatim>\<open>AttributeError\<close>.
\<close>

definition login :: "string json \<Rightarrow> db \<Rightarrow> error + response" where
  "login data s =
     (if data = [] \<or> \<not> has_key data ''email'' \<or> \<not> has_key data ''password''
      then Inl ValueError
      else case (map_of data ''email'', map_of data ''password'') of
        (Some email, Some password) \<Rightarrow>
          (case find (\<lambda>u. u_email u = email) (users s) of
             None \<Rightarrow> Inl AttributeError
           | Some u \<Rightarrow>
               (let token = Token (u_id u)
                in if check_password u password then Inr (token, 200)
                   else Inr (Text ''email or password is invalid'', 200)))
      | _ \<Rightarrow> Inl ValueError)"

section \<open>The ledger\<close>

text \<open>\<^verbatim>\<open>i.category.name\<close>: the category row the foreign key names; with no such row the
  relationship is \<^verbatim>\<open>None\<close> and the read of its name raises.\<close>

definition category_name :: "db \<Rightarrow> expense \<Rightarrow> error + string" where
  "category_name s x =
     (case find (\<lambda>c. c_id c = e_category_id x) (categories s) of
        None \<Rightarrow> Inl AttributeError
      | Some c \<Rightarrow> Inr (c_name c))"

definition to_row :: "db \<Rightarrow> expense \<Rightarrow> error + row" where
  "to_row s x =
     and_then (category_name s x) (\<lambda>n.
       Inr \<lparr>r_id = e_id x, r_date = e_date x, r_description = e_description x,
            r_amount = e_amount x, r_category = n\<rparr>)"

text \<open>
  \<^verbatim>\<open>add\<close> stores the expense under the caller's id, creating the category when no row has
  its name. The column default \<^verbatim>\<open>datetime.now()\<close> is evaluated once, when the module is
  loaded: \<open>started\<close> is that date.
\<close>

definition add :: "int \<Rightarrow> date \<Rightarrow> string json \<Rightarrow> db \<Rightarrow> (error + response) \<times> db" where
  "add user_id started data s =
     (if data = [] \<or> \<not> has_key data ''description'' \<or> \<not> has_key data ''amount''
         \<or> \<not> has_key data ''category''
      then (Inl ValueError, s)
      else case (map_of data ''description'', map_of data ''amount'', map_of data ''category'') of
        (Some description, Some amount, Some cname) \<Rightarrow>
          (let (cat, s1) =
                 (case find (\<lambda>c. c_name c = cname) (categories s) of
                    Some c \<Rightarrow> (c, s)
                  | None \<Rightarrow>
                      (let c = \<lparr>c_id = next_id (map c_id (categories s)), c_name = cname\<rparr>
                       in (c, s\<lparr>categories := categories s @ [c]\<rparr>)));
               x = \<lparr>e_id = next_id (map e_id (expenses s1)), e_date = started,
                    e_description = description, e_amount = amount,
                    e_category_id = c_id cat, e_user_id = user_id\<rparr>
           in (Inr (Record \<lparr>r_id = e_id x, r_date = e_date x, r_description = e_description x,
                            r_amount = e_amount x, r_category = c_name cat\<rparr>, 200),
               s1\<lparr>expenses := expenses s1 @ [x]\<rparr>))
      | _ \<Rightarrow> (Inl ValueError, s))"

text \<open>
  \<^verbatim>\<open>update\<close> and \<^verbatim>\<open>delete\<close> take the identity of the token, \<open>user_id\<close> (the id that
  \<^verbatim>\<open>register\<close> or \<^verbatim>\<open>login\<close> put into it), and the id of the route. Only the refusal of \<^verbatim>\<open>delete\<close> names a status (403); the one of \<^verbatim>\<open>update\<close>
  returns its message with the default status.
\<close>

definition update :: "int \<Rightarrow> int \<Rightarrow> string json \<Rightarrow> db \<Rightarrow> (error + response) \<times> db" where
  "update user_id i data s =
     (case find (\<lambda>x. e_id x = i) (expenses s) of
        None \<Rightarrow> (Inr (Message ''Expense not found'', 200), s)
      | Some x \<Rightarrow>
          if e_user_id x \<noteq> user_id then (Inr (Message ''Forbbiden'', 200), s)
          else if data = [] \<or> \<not> has_key data ''description'' \<or> \<not> has_key data ''amount''
          then (Inl ValueError, s)
          else case (map_of data ''description'', map_of data ''amount'') of
            (Some description, Some amount) \<Rightarrow>
              (let x' = x\<lparr>e_description := description, e_amount := amount\<rparr>;
                   s' = s\<lparr>expenses := map (\<lambda>y. if e_id y = i then x' else y) (expenses s)\<rparr>
               in (and_then (to_row s' x') (\<lambda>r. Inr (Record r, 200)), s'))
          | _ \<Rightarrow> (Inl ValueError, s))"

definition delete :: "int \<Rightarrow> int \<Rightarrow> db \<Rightarrow> (error + response) \<times> db" where
  "delete user_id i s =
     (case find (\<lambda>x. e_id x = i) (expenses s) of
        None \<Rightarrow> (Inr (Message ''Expense not found'', 200), s)
      | Some x \<Rightarrow>
          if e_user_id x \<noteq> user_id then (Inr (Message ''Forbidden'', 403), s)
          else (Inr (Text ''success'', 204), s\<lparr>expenses := filter (\<lambda>y. e_id y \<noteq> i) (expenses s)\<rparr>))"

section \<open>Queries over the ledger\<close>

text \<open>
  The data frame of a query has one row per expense, in the order of \<^verbatim>\<open>Expense.query.all()\<close>.
  A frame built from no rows has no columns, so \<^verbatim>\<open>df["date"]\<close> raises \<^verbatim>\<open>KeyError\<close> on it.
\<close>

fun frame_rows :: "db \<Rightarrow> expense list \<Rightarrow> error + row list" where
  "frame_rows s [] = Inr []"
| "frame_rows s (x # xs) =
     and_then (to_row s x) (\<lambda>r. and_then (frame_rows s xs) (\<lambda>rs. Inr (r # rs)))"

definition between :: "date \<Rightarrow> date \<Rightarrow> date \<Rightarrow> bool" where
  "between lo hi d = (date_le lo d \<and> date_le d hi)"

text \<open>
  \<^verbatim>\<open>custom_date\<close> (\<^verbatim>\<open>POST /expenses\<close>). Each bound of the body is the calendar date its text
  denotes: pandas reads the string as a timestamp when it compares it with the column.
\<close>

definition custom_date :: "date json \<Rightarrow> db \<Rightarrow> error + response" where
  "custom_date data s =
     and_then (frame_rows s (expenses s)) (\<lambda>df.
       if data = [] \<or> \<not> has_key data ''start'' \<or> \<not> has_key data ''end'' then Inl ValueError
       else if df = [] then Inl KeyError
       else and_then (get_key data ''start'') (\<lambda>start.
            and_then (get_key data ''end'') (\<lambda>finish.
              Inr (Rows (filter (\<lambda>r. between start finish (r_date r)) df), 200))))"

text \<open>
  \<^verbatim>\<open>past_week\<close> (\<^verbatim>\<open>GET /expense/week\<close>); \<open>today\<close> is \<^verbatim>\<open>datetime.today().date()\<close>.
  The two bounds are computed from \<open>today\<close> alone (\<^verbatim>\<open>timedelta(weeks=1)\<close> is seven
  days); \<open>week_window\<close> is that part of the handler. The rows of this handler carry the
  description under the key \<^verbatim>\<open>descsription\<close>; the value is the same.
\<close>

definition week_window :: "date \<Rightarrow> error + date \<times> date" where
  "week_window today =
     and_then (sub_days today (weekday today)) (\<lambda>start_of_this_week.
     and_then (sub_days start_of_this_week 7) (\<lambda>prev_week_start.
     and_then (sub_days start_of_this_week 1) (\<lambda>prev_week_end.
       Inr (prev_week_start, prev_week_end))))"

definition past_week :: "date \<Rightarrow> db \<Rightarrow> error + response" where
  "past_week today s =
     (if expenses s = [] then Inr (Message ''expense not found'', 200)
      else and_then (frame_rows s (expenses s)) (\<lambda>df.
           and_then (week_window today) (\<lambda>(prev_week_start, prev_week_end).
             (let flt = filter (\<lambda>r. between prev_week_start prev_week_end (r_date r)) df
              in if flt = [] then Inr (Message ''expense past week not found'', 200)
                 else Inr (Rows flt, 200)))))"

text \<open>\<^verbatim>\<open>past_month\<close> (\<^verbatim>\<open>GET /expense/month\<close>), with \<open>month_window\<close> its two bounds.\<close>

definition month_window :: "date \<Rightarrow> error + date \<times> date" where
  "month_window today =
     and_then (sub_days today (day today)) (\<lambda>last.
     and_then (replace_day last 1) (\<lambda>prev_month_start.
     and_then (sub_days today (day today)) (\<lambda>prev_month_end.
       Inr (prev_month_start, prev_month_end))))"

definition past_month :: "date \<Rightarrow> db \<Rightarrow> error + response" where
  "past_month today s =
     (if expenses s = [] then Inr (Message ''expense not found'', 200)
      else and_then (frame_rows s (expenses s)) (\<lambda>df.
           and_then (month_window today) (\<lambda>(prev_month_start, prev_month_end).
             (let flt = filter (\<lambda>r. between prev_month_start prev_month_end (r_date r)) df
              in if flt = [] then Inr (Message ''expense past month not found'', 200)
                 else Inr (Rows flt, 200)))))"

text \<open>\<^verbatim>\<open>total\<close> (\<^verbatim>\<open>GET /expense/total\<close>), here \<open>total_expense\<close>: the loop over all
  expenses, with the running total as its state.\<close>

definition amount_value :: "string \<Rightarrow> error + int" where
  "amount_value a = py_int (strip_dollar a)"

fun total_loop :: "expense list \<Rightarrow> int \<Rightarrow> error + int" where
  "total_loop [] tot = Inr tot"
| "total_loop (x # xs) tot =
     and_then (amount_value (e_amount x)) (\<lambda>v. total_loop xs (tot + v))"

definition total_expense :: "db \<Rightarrow> error + response" where
  "total_expense s =
     and_then (total_loop (expenses s) 0) (\<lambda>t.
     and_then (py_str t) (\<lambda>digits. Inr (Total (''$'' @ digits), 200)))"

text \<open>\<^verbatim>\<open>total_by_month\<close> (\<^verbatim>\<open>GET /expense/total/<int:id>\<close>): the loop keeps the total and the
  concatenated month names; the answer passes the latter through \<^verbatim>\<open>dict.fromkeys\<close>.\<close>

fun month_loop :: "int \<Rightarrow> expense list \<Rightarrow> int \<times> string \<Rightarrow> error + int \<times> string" where
  "month_loop i [] acc = Inr acc"
| "month_loop i (x # xs) (tot, names) =
     (if month (e_date x) = i
      then and_then (amount_value (e_amount x)) (\<lambda>v.
             month_loop i xs (tot + v, names @ month_name (e_date x)))
      else month_loop i xs (tot, names))"

definition total_by_month :: "int \<Rightarrow> db \<Rightarrow> error + response" where
  "total_by_month i s =
     and_then (month_loop i (expenses s) (0, [])) (\<lambda>(t, m).
       and_then (py_str t) (\<lambda>digits.
         Inr (Text (''Total expense for '' @ fromkeys m @ '': $'' @ digits), 200)))"

section \<open>Notions used to state the properties\<close>

text \<open>Every expense names a category that exists: the foreign key of the schema.\<close>

definition fk_ok :: "db \<Rightarrow> bool" where
  "fk_ok s = list_all (\<lambda>x. find (\<lambda>c. c_id c = e_category_id x) (categories s) \<noteq> None) (expenses s)"

text \<open>The status of the answer to a request: Flask answers an exception that no handler
  catches with 500.\<close>

definition http_status :: "error + response \<Rightarrow> nat" where
  "http_status r = (case r of Inl e \<Rightarrow> 500 | Inr (b, code) \<Rightarrow> code)"

text \<open>The \<open>ConflictError\<close> of the specification (its section 7): the request is answered
  with status 409. Likewise its \<open>ForbiddenError\<close> is the answer with status 403.\<close>

definition conflict_response :: "error + response \<Rightarrow> bool" where
  "conflict_response r = (http_status r = 409)"

definition forbidden_response :: "error + response \<Rightarrow> bool" where
  "forbidden_response r = (http_status r = 403)"

text \<open>An amount that is the dollar sign followed by a decimal integer: an optional sign and
  at least one decimal digit.\<close>

definition is_decimal_integer :: "string \<Rightarrow> bool" where
  "is_decimal_integer t =
     (let ds = (case t of c # cs \<Rightarrow> if c = CHR ''+'' \<or> c = CHR ''-'' then cs else t | [] \<Rightarrow> t)
      in ds \<noteq> [] \<and> list_all is_digit ds)"

definition dollar_amount :: "string \<Rightarrow> bool" where
  "dollar_amount a = (case a of c # t \<Rightarrow> c = CHR ''$'' \<and> is_decimal_integer t | [] \<Rightarrow> False)"

text \<open>The states the service can be in: it starts with empty tables, anyone may register,
  and a registered user may add an expense and update or delete expenses.\<close>

inductive reachable :: "db \<Rightarrow> bool" where
  start: "reachable empty_db"
| by_register: "reachable s \<Longrightarrow> reachable (snd (register salt data s))"
| by_add: "reachable s \<Longrightarrow> u \<in> set (map u_id (users s)) \<Longrightarrow> reachable (snd (add u started data s))"
| by_update: "reachable s \<Longrightarrow> u \<in> set (map u_id (users s)) \<Longrightarrow> reachable (snd (update u i data s))"
| by_delete: "reachable s \<Longrightarrow> u \<in> set (map u_id (users s)) \<Longrightarrow> reachable (snd (delete u i s))"

section \<open>Example ledgers\<close>

text \<open>Two users and three expenses, one of them of the second user; and the two ledgers
  of the scenario for month totals, with a ledger of one expense in February beside them.\<close>

definition sample_db :: db where
  "sample_db =
     \<lparr>users = [\<lparr>u_id = 1, u_name = ''ann'', u_email = ''ann@example.org'',
                  u_password_hash = Hash ''s1'' ''secret''\<rparr>,
                \<lparr>u_id = 2, u_name = ''bob'', u_email = ''bob@example.org'',
                  u_password_hash = Hash ''s2'' ''hunter2''\<rparr>],
      expenses = [\<lparr>e_id = 1, e_date = \<lparr>year = 2024, month = 3, day = 15\<rparr>,
                     e_description = ''lunch'', e_amount = ''$10'', e_category_id = 1, e_user_id = 1\<rparr>,
                   \<lparr>e_id = 2, e_date = \<lparr>year = 2023, month = 3, day = 1\<rparr>,
                     e_description = ''bus'', e_amount = ''$5'', e_category_id = 2, e_user_id = 2\<rparr>,
                   \<lparr>e_id = 3, e_date = \<lparr>year = 2024, month = 2, day = 10\<rparr>,
                     e_description = ''refund'', e_amount = ''$-3'', e_category_id = 1, e_user_id = 1\<rparr>],
      categories = [\<lparr>c_id = 1, c_name = ''food''\<rparr>, \<lparr>c_id = 2, c_name = ''travel''\<rparr>]\<rparr>"

definition march_db :: db where
  "march_db =
     \<lparr>users = [],
      expenses = [\<lparr>e_id = 1, e_date = \<lparr>year = 2024, month = 3, day = 15\<rparr>,
                     e_description = ''rent'', e_amount = ''$100'', e_category_id = 1, e_user_id = 1\<rparr>,
                   \<lparr>e_id = 2, e_date = \<lparr>year = 2023, month = 3, day = 1\<rparr>,
                     e_description = ''books'', e_amount = ''$50'', e_category_id = 1, e_user_id = 2\<rparr>],
      categories = [\<lparr>c_id = 1, c_name = ''home''\<rparr>]\<rparr>"

definition february_db :: db where
  "february_db =
     \<lparr>users = [],
      expenses = [\<lparr>e_id = 1, e_date = \<lparr>year = 2024, month = 2, day = 10\<rparr>,
                     e_description = ''tea'', e_amount = ''$5'', e_category_id = 1, e_user_id = 1\<rparr>],
      categories = [\<lparr>c_id = 1, c_name = ''food''\<rparr>]\<rparr>"

text \<open>Two ledgers with long amounts: two expenses of \<open>MAX_STR_DIGITS\<close> nines each, and,
  after one registration and one \<open>add\<close>, one expense of one nine more.\<close>

definition nines_db :: db where
  "nines_db =
     \<lparr>users = [],
      expenses = [\<lparr>e_id = 1, e_date = \<lparr>year = 2024, month = 3, day = 15\<rparr>,
                     e_description = ''car'', e_amount = CHR ''$'' # replicate MAX_STR_DIGITS (CHR ''9''),
                     e_category_id = 1, e_user_id = 1\<rparr>,
                   \<lparr>e_id = 2, e_date = \<lparr>year = 2024, month = 3, day = 16\<rparr>,
                     e_description = ''boat'', e_amount = CHR ''$'' # replicate MAX_STR_DIGITS (CHR ''9''),
                     e_category_id = 1, e_user_id = 2\<rparr>],
      categories = [\<lparr>c_id = 1, c_name = ''toys''\<rparr>]\<rparr>"

definition ann_registers :: "string json" where
  "ann_registers = [(''name'', ''ann''), (''email'', ''ann@example.org''), (''password'', ''secret'')]"

definition long_expense :: "string json" where
  "long_expense = [(''description'', ''yacht''),
                   (''amount'', CHR ''$'' # replicate (Suc MAX_STR_DIGITS) (CHR ''9'')),
                   (''category'', ''toys'')]"

definition long_db :: db where
  "long_db = snd (add 1 \<lparr>year = 2024, month = 3, day = 15\<rparr> long_expense
                   (snd (register ''s1'' ann_registers empty_db)))"

definition year_2024 :: "date json" where
  "year_2024 = [(''start'', \<lparr>year = 2024, month = 1, day = 1\<rparr>),
                (''end'', \<lparr>year = 2024, month = 12, day = 31\<rparr>)]"

definition ann_again :: "string json" where
  "ann_again = [(''name'', ''ann2''), (''email'', ''ann@example.org''), (''password'', ''other'')]"

definition carl_login :: "string json" where
  "carl_login = [(''email'', ''carl@example.org''), (''password'', ''secret'')]"

section \<open>Facts about the calendar\<close>

lemma div_decomp: "0 \<le> r \<Longrightarrow> r < k \<Longrightarrow> (k * q + r) div k = (q::int)"
  by (cases "k = 0") (simp_all add: div_pos_pos_trivial)

lemma mod_decomp: "0 \<le> r \<Longrightarrow> r < k \<Longrightarrow> (k * q + r) mod k = (r::int)"
  by (simp add: mod_pos_pos_trivial)

lemma dby_decomp:
  assumes "0 \<le> b" "b \<le> 3" "0 \<le> c" "c \<le> 24" "0 \<le> e" "e \<le> 3"
  shows "days_before_year (400 * a + 100 * b + 4 * c + e + 1) = 146097 * a + 36524 * b + 1461 * c + 365 * e"
proof -
  let ?Y = "400 * a + 100 * b + 4 * c + e"
  have "?Y = 4 * (100 * a + 25 * b + c) + e" by simp
  then have 1: "?Y div 4 = 100 * a + 25 * b + c"
    using div_decomp[of e 4 "100 * a + 25 * b + c"] assms by simp
  have "?Y = 100 * (4 * a + b) + (4 * c + e)" by simp
  then have 2: "?Y div 100 = 4 * a + b"
    using div_decomp[of "4 * c + e" 100 "4 * a + b"] assms by simp
  have 3: "?Y div 400 = a"
    using div_decomp[of "100 * b + 4 * c + e" 400 a] assms by (simp add: algebra_simps)
  show ?thesis unfolding days_before_year_def Let_def using 1 2 3 by simp
qed

lemma mod_zero_iff:
  assumes "y = k * q + r" "0 < r" "r \<le> k"
  shows "(y mod k = 0) = (r = (k::int))"
proof (cases "r = k")
  case True
  then show ?thesis using assms(1) by simp
next
  case False
  then have "r < k" using assms by simp
  then have "(k * q + r) mod k = r" using assms mod_decomp[of r k q] by simp
  then show ?thesis using assms False by simp
qed

lemma leap_decomp:
  assumes "0 \<le> b" "b \<le> 3" "0 \<le> c" "c \<le> 24" "0 \<le> e" "e \<le> 3"
  shows "is_leap (400 * a + 100 * b + 4 * c + e + 1) = (e = 3 \<and> (c \<noteq> 24 \<or> b = 3))"
proof -
  let ?y = "400 * a + 100 * b + 4 * c + e + 1"
  have 1: "(?y mod 4 = 0) = (e + 1 = 4)"
    by (rule mod_zero_iff[where q = "100 * a + 25 * b + c"]) (use assms in simp_all)
  have 2: "(?y mod 100 = 0) = (4 * c + e + 1 = 100)"
    by (rule mod_zero_iff[where q = "4 * a + b"]) (use assms in simp_all)
  have 3: "(?y mod 400 = 0) = (100 * b + 4 * c + e + 1 = 400)"
    by (rule mod_zero_iff[where q = a]) (use assms in simp_all)
  show ?thesis unfolding is_leap_def 1 2 3 using assms by auto
qed

lemma int_1_6_cases:
  "1 \<le> k \<Longrightarrow> k \<le> 6 \<Longrightarrow> k = 1 \<or> k = 2 \<or> k = 3 \<or> k = 4 \<or> k = 5 \<or> k = (6::int)"
  by auto

lemma int_1_12_cases:
  assumes "1 \<le> k" "k \<le> 12" 
  shows "k = 1 \<or> k = 2 \<or> k = 3 \<or> k = 4 \<or> k = 5 \<or> k = 6
     \<or> k = 7 \<or> k = 8 \<or> k = 9 \<or> k = 10 \<or> k = 11 \<or> k = (12::int)"
proof (cases "k \<le> 6")
  case True
  then show ?thesis using int_1_6_cases[of k] assms by blast
next
  case False
  then show ?thesis using int_1_6_cases[of "k - 6"] assms by auto
qed

lemma month_of_yday_ok:
  assumes "0 \<le> n" "n < (if leap then 366 else 365)" "month_of_yday leap n = (m, p)"
  shows "1 \<le> m \<and> m \<le> 12 \<and> p = DAYS_BEFORE_MONTH ! nat m + (if m > 2 \<and> leap then 1 else 0)
         \<and> p \<le> n \<and> n - p < (if m = 2 \<and> leap then 29 else DAYS_IN_MONTH ! nat m)"
proof -
  define k where "k = (n + 50) div 32"
  have b: "32 * k \<le> n + 50" "n + 50 < 32 * k + 32"
    unfolding k_def by simp_all
  have "n < 366" using assms(2) by (simp split: if_splits)
  with b assms(1) have "1 \<le> k" "k \<le> 12" by simp_all
  then consider "k = 1" | "k = 2" | "k = 3" | "k = 4" | "k = 5" | "k = 6"
    | "k = 7" | "k = 8" | "k = 9" | "k = 10" | "k = 11" | "k = 12"
    using int_1_12_cases[of k] by blast
  then show ?thesis
  proof cases
    case 1 with b assms show ?thesis
      by (auto simp: month_of_yday_def k_def[symmetric] Let_def DAYS_BEFORE_MONTH_def DAYS_IN_MONTH_def split: if_splits)
  next
    case 2 with b assms show ?thesis
      by (auto simp: month_of_yday_def k_def[symmetric] Let_def DAYS_BEFORE_MONTH_def DAYS_IN_MONTH_def split: if_splits)
  next
    case 3 with b assms show ?thesis
      by (auto simp: month_of_yday_def k_def[symmetric] Let_def DAYS_BEFORE_MONTH_def DAYS_IN_MONTH_def split: if_splits)
  next
    case 4 with b assms show ?thesis
      by (auto simp: month_of_yday_def k_def[symmetric] Let_def DAYS_BEFORE_MONTH_def DAYS_IN_MONTH_def split: if_splits)
  next
    case 5 with b assms show ?thesis
      by (auto simp: month_of_yday_def k_def[symmetric] Let_def DAYS_BEFORE_MONTH_def DAYS_IN_MONTH_def split: if_splits)
  next
    case 6 with b assms show ?thesis
      by (auto simp: month_of_yday_def k_def[symmetric] Let_def DAYS_BEFORE_MONTH_def DAYS_IN_MONTH_def split: if_splits)
  next
    case 7 with b assms show ?thesis
      by (auto simp: month_of_yday_def k_def[symmetric] Let_def DAYS_BEFORE_MONTH_def DAYS_IN_MONTH_def split: if_splits)
  next
    case 8 with b assms show ?thesis
      by (auto simp: month_of_yday_def k_def[symmetric] Let_def DAYS_BEFORE_MONTH_def DAYS_IN_MONTH_def split: if_splits)
  next
    case 9 with b assms show ?thesis
      by (auto simp: month_of_yday_def k_def[symmetric] Let_def DAYS_BEFORE_MONTH_def DAYS_IN_MONTH_def split: if_splits)
  next
    case 10 with b assms show ?thesis
      by (auto simp: month_of_yday_def k_def[symmetric] Let_def DAYS_BEFORE_MONTH_def DAYS_IN_MONTH_def split: if_splits)
  next
    case 11 with b assms show ?thesis
      by (auto simp: month_of_yday_def k_def[symmetric] Let_def DAYS_BEFORE_MONTH_def DAYS_IN_MONTH_def split: if_splits)
  next
    case 12 with b assms show ?thesis
      by (auto simp: month_of_yday_def k_def[symmetric] Let_def DAYS_BEFORE_MONTH_def DAYS_IN_MONTH_def split: if_splits)
  qed
qed


lemma ord2ymd_split:
  fixes n :: int
  assumes a_def: "a = (n - 1) div 146097" and r1_def: "r1 = (n - 1) mod 146097"
    and b_def: "b = r1 div 36524" and r2_def: "r2 = r1 mod 36524"
    and c_def: "c = r2 div 1461" and r3_def: "r3 = r2 mod 1461"
    and e_def: "e = r3 div 365" and r4_def: "r4 = r3 mod 365"
  shows "n = 146097 * a + 36524 * b + 1461 * c + 365 * e + r4 + 1"
    and "0 \<le> b" "b \<le> 4" "0 \<le> c" "c \<le> 24" "0 \<le> e" "e \<le> 4" "0 \<le> r4" "r4 < 365"
    and "b = 4 \<Longrightarrow> c = 0 \<and> e = 0 \<and> r4 = 0"
    and "e = 4 \<Longrightarrow> r4 = 0 \<and> (c \<noteq> 24 \<or> b = 3 \<or> b = 4)"
proof -
  have n0: "n - 1 = 146097 * a + r1" and r1: "0 \<le> r1" "r1 < 146097"
    unfolding a_def r1_def by simp_all
  have r1e: "r1 = 36524 * b + r2" and r2: "0 \<le> r2" "r2 < 36524"
    unfolding b_def r2_def by simp_all
  have r2e: "r2 = 1461 * c + r3" and r3: "0 \<le> r3" "r3 < 1461"
    unfolding c_def r3_def by simp_all
  have r3e: "r3 = 365 * e + r4" and r4: "0 \<le> r4" "r4 < 365"
    unfolding e_def r4_def by simp_all
  show "n = 146097 * a + 36524 * b + 1461 * c + 365 * e + r4 + 1"
    using n0 r1e r2e r3e by linarith
  show b: "0 \<le> b" "b \<le> 4" using r1 r1e r2 by linarith+
  show c: "0 \<le> c" "c \<le> 24" using r2 r2e r3 by linarith+
  show e: "0 \<le> e" "e \<le> 4" using r3 r3e r4 by linarith+
  show "0 \<le> r4" "r4 < 365" using r4 by simp_all
  show "b = 4 \<Longrightarrow> c = 0 \<and> e = 0 \<and> r4 = 0"
    using r1 r1e r2 r2e r3 r3e r4 c e by linarith
  show "e = 4 \<Longrightarrow> r4 = 0 \<and> (c \<noteq> 24 \<or> b = 3 \<or> b = 4)"
    using r2 r2e r3 r3e r4 by linarith
qed

lemma ord2ymd_unfold:
  fixes n :: int
  assumes a_def: "a = (n - 1) div 146097" and r1_def: "r1 = (n - 1) mod 146097"
    and b_def: "b = r1 div 36524" and r2_def: "r2 = r1 mod 36524"
    and c_def: "c = r2 div 1461" and r3_def: "r3 = r2 mod 1461"
    and e_def: "e = r3 div 365" and r4_def: "r4 = r3 mod 365"
  shows "ord2ymd n =
    (if e = 4 \<or> b = 4 then (400 * a + 100 * b + 4 * c + e, 12, 31)
     else case month_of_yday (e = 3 \<and> (c \<noteq> 24 \<or> b = 3)) r4 of
            (m, p) \<Rightarrow> (400 * a + 100 * b + 4 * c + e + 1, m, r4 - p + 1))"
  unfolding ord2ymd_def Let_def assms by (simp add: algebra_simps)

lemma tab_simps:
  "DAYS_BEFORE_MONTH ! 12 = 334" "DAYS_IN_MONTH ! 12 = 31"
  by (simp_all add: DAYS_BEFORE_MONTH_def DAYS_IN_MONTH_def)

lemma ord2ymd_correct:
  assumes "ord2ymd n = (y, m, d)"
  shows "ymd2ord y m d = n"
    and "1 \<le> m \<and> m \<le> 12 \<and> 1 \<le> d \<and> d \<le> days_in_month y m"
proof -
  define a where "a = (n - 1) div 146097"
  define r1 where "r1 = (n - 1) mod 146097"
  define b where "b = r1 div 36524"
  define r2 where "r2 = r1 mod 36524"
  define c where "c = r2 div 1461"
  define r3 where "r3 = r2 mod 1461"
  define e where "e = r3 div 365"
  define r4 where "r4 = r3 mod 365"
  note defs = a_def r1_def b_def r2_def c_def r3_def e_def r4_def
  note sp = ord2ymd_split[OF defs]
  note un = ord2ymd_unfold[OF defs]
  have both: "ymd2ord y m d = n \<and> (1 \<le> m \<and> m \<le> 12 \<and> 1 \<le> d \<and> d \<le> days_in_month y m)"
  proof (cases "b = 4")
    case True
    then have z: "c = 0" "e = 0" "r4 = 0" using sp(10) by simp_all
    have ymd: "y = 400 * a + 100 * 3 + 4 * 24 + 3 + 1" "m = 12" "d = 31"
      using assms un True z by simp_all
    have "days_before_year y = 146097 * a + 36524 * 3 + 1461 * 24 + 365 * 3"
      unfolding ymd(1) by (rule dby_decomp) simp_all
    moreover have "is_leap y" unfolding ymd(1) by (subst leap_decomp) simp_all
    ultimately show ?thesis using sp(1) True z ymd
      by (simp add: ymd2ord_def days_before_month_def days_in_month_def tab_simps)
  next
    case b: False
    then have b3: "b \<le> 3" using sp(3) by simp
    show ?thesis
    proof (cases "e = 4")
      case True
      then have z: "r4 = 0" "c \<noteq> 24 \<or> b = 3" using sp(11) b by simp_all
      have ymd: "y = 400 * a + 100 * b + 4 * c + 3 + 1" "m = 12" "d = 31"
        using assms un True by simp_all
      have "days_before_year y = 146097 * a + 36524 * b + 1461 * c + 365 * 3"
        unfolding ymd(1) by (rule dby_decomp) (use sp b3 in simp_all)
      moreover have "is_leap y" unfolding ymd(1) by (subst leap_decomp) (use sp b3 z in simp_all)
      ultimately show ?thesis using sp(1) True z ymd
        by (simp add: ymd2ord_def days_before_month_def days_in_month_def tab_simps)
    next
      case False
      then have e3: "e \<le> 3" using sp(7) by simp
      define lp where "lp = (e = 3 \<and> (c \<noteq> 24 \<or> b = 3))"
      obtain m' p where mp: "month_of_yday lp r4 = (m', p)" by (cases "month_of_yday lp r4")
      have ymd: "y = 400 * a + 100 * b + 4 * c + e + 1" "m = m'" "d = r4 - p + 1"
        using assms un False b mp unfolding lp_def by simp_all
      have dby: "days_before_year y = 146097 * a + 36524 * b + 1461 * c + 365 * e"
        unfolding ymd(1) by (rule dby_decomp) (use sp b3 e3 in simp_all)
      have lp: "is_leap y = lp" unfolding ymd(1) lp_def
        by (rule leap_decomp) (use sp b3 e3 in simp_all)
      have "r4 < (if lp then 366 else 365)" using sp(9) by simp
      from month_of_yday_ok[OF sp(8) this mp]
      have ok: "1 \<le> m'" "m' \<le> 12" "p = DAYS_BEFORE_MONTH ! nat m' + (if m' > 2 \<and> lp then 1 else 0)"
        "p \<le> r4" "r4 - p < (if m' = 2 \<and> lp then 29 else DAYS_IN_MONTH ! nat m')"
        by simp_all
      have "ymd2ord y m d = n"
        using sp(1) dby ok(3) ymd(2,3) lp by (simp add: ymd2ord_def days_before_month_def)
      moreover have "1 \<le> m \<and> m \<le> 12 \<and> 1 \<le> d \<and> d \<le> days_in_month y m"
        using ok ymd(2,3) lp by (simp add: days_in_month_def)
      ultimately show ?thesis by simp
    qed
  qed
  show "ymd2ord y m d = n" using both by simp
  show "1 \<le> m \<and> m \<le> 12 \<and> 1 \<le> d \<and> d \<le> days_in_month y m" using both by simp
qed


lemma div_step:
  assumes "0 < k"
  shows "(y::int) div k = (y - 1) div k + (if y mod k = 0 then 1 else 0)"
proof (cases "y mod k = 0")
  case True
  have "k * (y div k) = y" using mult_div_mod_eq[of k y] True by simp
  then have e: "y - 1 = k * (y div k - 1) + (k - 1)"
    by (simp add: right_diff_distrib)
  have "(k * (y div k - 1) + (k - 1)) div k = y div k - 1"
    by (rule div_decomp) (use assms in simp_all)
  then have "(y - 1) div k = y div k - 1"
    by (simp only: e)
  then show ?thesis using True by simp
next
  case False
  have "0 \<le> y mod k" "y mod k < k" using assms by simp_all
  then have r: "0 \<le> y mod k - 1" "y mod k - 1 < k" using False by simp_all
  have "k * (y div k) + y mod k = y" by (rule mult_div_mod_eq)
  then have e: "y - 1 = k * (y div k) + (y mod k - 1)" by simp
  have "(k * (y div k) + (y mod k - 1)) div k = y div k"
    by (rule div_decomp[OF r])
  then have "(y - 1) div k = y div k"
    by (simp only: e)
  then show ?thesis using False by simp
qed

lemma mod_dvd_chain:
  fixes y :: int
  assumes "y mod j = 0" "k dvd j"
  shows "y mod k = 0"
  using assms by (meson dvd_trans mod_eq_0_iff_dvd)

lemma dby_step_aux:
  fixes y :: int
  assumes "A = a + i" "B = b + j" "C = c + k"
  shows "y * 365 + A - B + C = ((y - 1) * 365 + a - b + c) + 365 + (i - j + k)"
  using assms by (simp add: algebra_simps)

lemma leap_flag_aux:
  assumes "p100 \<Longrightarrow> p4" "p400 \<Longrightarrow> p100"
  shows "(if p4 then 1 else 0) - (if p100 then 1 else 0) + (if p400 then 1 else (0::int))
         = (if p4 \<and> (\<not> p100 \<or> p400) then 1 else 0)"
proof (cases p400)
  case True
  then have "p100" "p4" using assms by simp_all
  with True show ?thesis by simp
next
  case False
  show ?thesis
  proof (cases p100)
    case True
    then have "p4" using assms by simp
    with True False show ?thesis by simp
  next
    case False
    with \<open>\<not> p400\<close> show ?thesis by simp
  qed
qed


lemma dby_step:
  "days_before_year (y + 1) = days_before_year y + 365 + (if is_leap y then 1 else 0)"
proof -
  have d4: "y mod 100 = 0 \<Longrightarrow> y mod 4 = 0"
    by (rule mod_dvd_chain[of y 100 4]) simp_all
  have d100: "y mod 400 = 0 \<Longrightarrow> y mod 100 = 0"
    by (rule mod_dvd_chain[of y 400 100]) simp_all
  have s4: "y div 4 = (y - 1) div 4 + (if y mod 4 = 0 then 1 else 0)"
    by (rule div_step) simp
  have s100: "y div 100 = (y - 1) div 100 + (if y mod 100 = 0 then 1 else 0)"
    by (rule div_step) simp
  have s400: "y div 400 = (y - 1) div 400 + (if y mod 400 = 0 then 1 else 0)"
    by (rule div_step) simp
  have flag: "(if y mod 4 = 0 then 1 else 0) - (if y mod 100 = 0 then 1 else 0)
          + (if y mod 400 = 0 then 1 else (0::int))
         = (if y mod 4 = 0 \<and> (\<not> y mod 100 = 0 \<or> y mod 400 = 0) then 1 else 0)"
    by (rule leap_flag_aux[OF d4 d100])
  have "days_before_year (y + 1) = y * 365 + y div 4 - y div 100 + y div 400"
    by (simp add: days_before_year_def)
  also have "\<dots> = ((y - 1) * 365 + (y - 1) div 4 - (y - 1) div 100 + (y - 1) div 400) + 365
       + ((if y mod 4 = 0 then 1 else 0) - (if y mod 100 = 0 then 1 else 0) + (if y mod 400 = 0 then 1 else 0))"
    by (rule dby_step_aux[OF s4 s100 s400])
  also have "\<dots> = ((y - 1) * 365 + (y - 1) div 4 - (y - 1) div 100 + (y - 1) div 400) + 365
       + (if y mod 4 = 0 \<and> (\<not> y mod 100 = 0 \<or> y mod 400 = 0) then 1 else 0)"
    by (simp only: flag)
  also have "\<dots> = days_before_year y + 365 + (if is_leap y then 1 else 0)"
    by (simp only: days_before_year_def Let_def is_leap_def)
  finally show ?thesis .
qed


lemma dby_mono: "y \<le> y' \<Longrightarrow> days_before_year y \<le> days_before_year y'"
proof (induction y' rule: int_ge_induct)
  case base
  show ?case by simp
next
  case (step i)
  have "days_before_year i \<le> days_before_year (i + 1)"
    by (simp only: dby_step split: if_splits) simp
  with step show ?case by simp
qed

lemma dby_next: "y < y' \<Longrightarrow> days_before_year y + 365 + (if is_leap y then 1 else 0) \<le> days_before_year y'"
  using dby_mono[of "y + 1" y'] by (simp only: dby_step)

lemma dim_cases:
  assumes "1 \<le> m" "m \<le> 12"
  shows "28 \<le> days_in_month y m \<and> days_in_month y m \<le> 31"
  using int_1_12_cases[OF assms]
  by (auto simp: days_in_month_def DAYS_IN_MONTH_def)

lemma dbm_succ:
  assumes "1 \<le> m" "m \<le> 11"
  shows "days_before_month y (m + 1) = days_before_month y m + days_in_month y m"
proof -
  have "m \<le> 12" using assms by simp
  from int_1_12_cases[OF assms(1) this] assms(2) show ?thesis
    by (auto simp: days_before_month_def days_in_month_def DAYS_IN_MONTH_def DAYS_BEFORE_MONTH_def)
qed

lemma dbm_last:
  "days_before_month y 12 + days_in_month y 12 = 365 + (if is_leap y then 1 else 0)"
  by (simp add: days_before_month_def days_in_month_def DAYS_IN_MONTH_def DAYS_BEFORE_MONTH_def)

lemma dbm_first: "days_before_month y 1 = 0"
  by (simp add: days_before_month_def DAYS_BEFORE_MONTH_def)

lemma dbm_mono:
  assumes "1 \<le> m" "m \<le> m'" "m' \<le> 12"
  shows "days_before_month y m \<le> days_before_month y m'"
  using assms(2,3)
proof (induction m' rule: int_ge_induct)
  case base
  show ?case by simp
next
  case (step i)
  have "1 \<le> i" "i \<le> 11" using step assms(1) by simp_all
  from dbm_succ[OF this, of y] dim_cases[of i y] this step show ?case by simp
qed

lemma yday_bounds:
  assumes "1 \<le> m" "m \<le> 12" "1 \<le> d" "d \<le> days_in_month y m"
  shows "1 \<le> days_before_month y m + d"
    and "days_before_month y m + d \<le> 365 + (if is_leap y then 1 else 0)"
proof -
  have "days_before_month y 1 \<le> days_before_month y m"
    by (rule dbm_mono) (use assms in simp_all)
  then show "1 \<le> days_before_month y m + d" using assms(3) dbm_first[of y] by simp
  have "days_before_month y m + days_in_month y m \<le> days_before_month y 12 + days_in_month y 12"
  proof (cases "m = 12")
    case True
    then show ?thesis by simp
  next
    case False
    then have m: "m \<le> 11" using assms by simp
    have "days_before_month y (m + 1) \<le> days_before_month y 12"
      by (rule dbm_mono) (use assms m in simp_all)
    then show ?thesis using dbm_succ[OF assms(1) m, of y] dim_cases[of 12 y] by simp
  qed
  then show "days_before_month y m + d \<le> 365 + (if is_leap y then 1 else 0)"
    using assms(4) by (simp only: dbm_last[symmetric])
qed

lemma yday_mono:
  assumes "1 \<le> m" "m < m'" "m' \<le> 12" "d \<le> days_in_month y m" "1 \<le> d'"
  shows "days_before_month y m + d < days_before_month y m' + d'"
proof -
  have m: "m \<le> 11" using assms by simp
  have "days_before_month y (m + 1) \<le> days_before_month y m'"
    by (rule dbm_mono) (use assms in simp_all)
  then show ?thesis using dbm_succ[OF assms(1) m, of y] assms(4,5) by simp
qed

lemma toordinal_strict_mono:
  assumes "valid_date a" "valid_date b" "date_lt a b"
  shows "toordinal a < toordinal b"
proof -
  consider (Y) "year a < year b"
    | (M) "year a = year b" "month a < month b"
    | (D) "year a = year b" "month a = month b" "day a < day b"
    using assms(3) by (auto simp: date_lt_def)
  then show ?thesis
  proof cases
    case Y
    have "days_before_month (year a) (month a) + day a \<le> 365 + (if is_leap (year a) then 1 else 0)"
      by (rule yday_bounds) (use assms(1) in \<open>simp_all add: valid_date_def\<close>)
    moreover have "1 \<le> days_before_month (year b) (month b) + day b"
      by (rule yday_bounds) (use assms(2) in \<open>simp_all add: valid_date_def\<close>)
    moreover note dby_next[OF Y]
    ultimately show ?thesis by (simp add: toordinal_def ymd2ord_def split: if_splits)
  next
    case M
    have "days_before_month (year a) (month a) + day a < days_before_month (year a) (month b) + day b"
      by (rule yday_mono) (use assms(1,2) M in \<open>simp_all add: valid_date_def\<close>)
    then show ?thesis using M by (simp add: toordinal_def ymd2ord_def)
  next
    case D
    then show ?thesis by (simp add: toordinal_def ymd2ord_def)
  qed
qed

lemma date_trichotomy: "date_lt a b \<or> date_lt b a \<or> (year a = year b \<and> month a = month b \<and> day a = day b)"
  by (auto simp: date_lt_def)

lemma date_le_iff: "date_le a b = (\<not> date_lt b a)"
  by (auto simp: date_lt_def date_le_def)

lemma date_lt_iff_toordinal:
  assumes "valid_date a" "valid_date b"
  shows "date_lt a b = (toordinal a < toordinal b)"
proof
  assume "date_lt a b" then show "toordinal a < toordinal b"
    by (rule toordinal_strict_mono[OF assms])
next
  assume lt: "toordinal a < toordinal b"
  show "date_lt a b"
  proof (rule ccontr)
    assume n: "\<not> date_lt a b"
    from date_trichotomy[of a b] n
    consider "date_lt b a" | "year a = year b \<and> month a = month b \<and> day a = day b" by blast
    then show False
    proof cases
      case 1
      from toordinal_strict_mono[OF assms(2,1) this] lt show False by simp
    next
      case 2
      then show False using lt by (simp add: toordinal_def)
    qed
  qed
qed

lemma date_le_iff_toordinal:
  assumes "valid_date a" "valid_date b"
  shows "date_le a b = (toordinal a \<le> toordinal b)"
  using date_lt_iff_toordinal[OF assms(2,1)] by (auto simp: date_le_iff)


lemma toordinal_fromordinal: "toordinal (fromordinal n) = n"
proof -
  obtain y m d where e: "ord2ymd n = (y, m, d)" by (cases "ord2ymd n") auto
  from ord2ymd_correct(1)[OF e] show ?thesis by (simp add: toordinal_def fromordinal_def e)
qed

lemma dby_1: "days_before_year 1 = 0"
  by (simp add: days_before_year_def)

lemma dby_10000: "days_before_year 10000 = 3652059"
  by (simp add: days_before_year_def)

lemma fromordinal_valid:
  assumes "1 \<le> n" "n \<le> MAXORDINAL"
  shows "valid_date (fromordinal n)"
proof -
  obtain y m d where e: "ord2ymd n = (y, m, d)" by (cases "ord2ymd n") auto
  note c = ord2ymd_correct[OF e]
  have md: "1 \<le> m" "m \<le> 12" "1 \<le> d" "d \<le> days_in_month y m" using c(2) by simp_all
  have n: "n = days_before_year y + (days_before_month y m + d)" using c(1) by (simp add: ymd2ord_def)
  have lo: "1 \<le> days_before_month y m + d" by (rule yday_bounds(1)[OF md])
  have hi: "days_before_month y m + d \<le> 365 + (if is_leap y then 1 else 0)" by (rule yday_bounds(2)[OF md])
  have "1 \<le> y"
  proof (rule ccontr)
    assume "\<not> 1 \<le> y"
    then have "y < 1" by simp
    from dby_next[OF this] hi n have "n \<le> days_before_year 1" by simp
    then show False using assms(1) dby_1 by simp
  qed
  moreover have "y \<le> 9999"
  proof (rule ccontr)
    assume "\<not> y \<le> 9999"
    then have "10000 \<le> y" by simp
    from dby_mono[OF this] lo n have "days_before_year 10000 < n" by simp
    then show False using assms(2) dby_10000 by (simp add: MAXORDINAL_def)
  qed
  ultimately show ?thesis using md by (simp add: valid_date_def fromordinal_def e)
qed

lemma toordinal_range:
  assumes "valid_date d"
  shows "1 \<le> toordinal d" and "toordinal d \<le> MAXORDINAL"
proof -
  have md: "1 \<le> month d" "month d \<le> 12" "1 \<le> day d" "day d \<le> days_in_month (year d) (month d)"
    and y: "1 \<le> year d" "year d \<le> 9999"
    using assms by (simp_all add: valid_date_def)
  have lo: "1 \<le> days_before_month (year d) (month d) + day d" by (rule yday_bounds(1)[OF md])
  have hi: "days_before_month (year d) (month d) + day d \<le> 365 + (if is_leap (year d) then 1 else 0)"
    by (rule yday_bounds(2)[OF md])
  from dby_mono[OF y(1)] lo show "1 \<le> toordinal d"
    by (simp add: toordinal_def ymd2ord_def dby_1)
  have "year d < 10000" using y by simp
  from dby_next[OF this] hi show "toordinal d \<le> MAXORDINAL"
    by (simp add: toordinal_def ymd2ord_def dby_10000 MAXORDINAL_def)
qed

lemma date_eqI: "year a = year b \<Longrightarrow> month a = month b \<Longrightarrow> day a = day b \<Longrightarrow> a = (b::date)"
  by simp

lemma toordinal_inj:
  assumes "valid_date a" "valid_date b" "toordinal a = toordinal b"
  shows "a = b"
proof -
  have "\<not> date_lt a b" "\<not> date_lt b a"
    using toordinal_strict_mono[OF assms(1,2)] toordinal_strict_mono[OF assms(2,1)] assms(3) by auto
  with date_trichotomy[of a b] show ?thesis by (simp add: date_eqI)
qed

lemma fromordinal_toordinal:
  assumes "valid_date d"
  shows "fromordinal (toordinal d) = d"
proof (rule toordinal_inj)
  show "valid_date (fromordinal (toordinal d))"
    by (rule fromordinal_valid) (use toordinal_range[OF assms] in simp_all)
  show "valid_date d" by (rule assms)
  show "toordinal (fromordinal (toordinal d)) = toordinal d" by (rule toordinal_fromordinal)
qed

section \<open>Facts about the two windows\<close>

lemma and_then_Inr [simp]: "and_then (Inr x) f = f x"
  by (simp add: and_then_def)

lemma and_then_Inl [simp]: "and_then (Inl e) f = Inl e"
  by (simp add: and_then_def)

lemma sub_days_ok:
  assumes "0 < toordinal d - n" "toordinal d - n \<le> MAXORDINAL"
  shows "sub_days d n = Inr (fromordinal (toordinal d - n))"
  using assms by (simp add: sub_days_def Let_def)

lemma week_window_eq:
  assumes "valid_date today" "7 < toordinal today"
  shows "\<exists>k. 1 \<le> k \<and> week_window today = Inr (fromordinal (7 * k - 6), fromordinal (7 * k))
             \<and> 7 * k < toordinal today \<and> toordinal today \<le> 7 * k + 7"
proof -
  define T where "T = toordinal today"
  define w where "w = (T + 6) mod 7"
  define q where "q = (T + 6) div 7"
  have w: "0 \<le> w" "w < 7" unfolding w_def by simp_all
  have "7 * q + w = T + 6" unfolding w_def q_def by (rule mult_div_mod_eq)
  then have T: "T = 7 * q + w - 6" by simp
  have Tmax: "T \<le> MAXORDINAL" unfolding T_def by (rule toordinal_range(2)[OF assms(1)])
  have T7: "7 < T" using assms(2) by (simp add: T_def)
  have q2: "2 \<le> q" using T T7 w by simp
  have wd: "weekday today = w" by (simp add: weekday_def w_def T_def)
  have M: "T - w = 7 * q - 6" using T by simp
  have s1: "sub_days today (weekday today) = Inr (fromordinal (7 * q - 6))"
    unfolding wd using sub_days_ok[of today w] M q2 Tmax w T by (simp add: T_def[symmetric])
  have o1: "toordinal (fromordinal (7 * q - 6)) = 7 * q - 6" by (rule toordinal_fromordinal)
  have s2: "sub_days (fromordinal (7 * q - 6)) 7 = Inr (fromordinal (7 * (q - 1) - 6))"
    using sub_days_ok[of "fromordinal (7 * q - 6)" 7] q2 Tmax T w by (simp add: o1)
  have s3: "sub_days (fromordinal (7 * q - 6)) 1 = Inr (fromordinal (7 * (q - 1)))"
    using sub_days_ok[of "fromordinal (7 * q - 6)" 1] q2 Tmax T w by (simp add: o1)
  have "week_window today = Inr (fromordinal (7 * (q - 1) - 6), fromordinal (7 * (q - 1)))"
    unfolding week_window_def s1 by (simp only: and_then_Inr s2 s3)
  moreover have "1 \<le> q - 1" using q2 by simp
  moreover have "7 * (q - 1) < toordinal today" "toordinal today \<le> 7 * (q - 1) + 7"
    using T w by (simp_all add: T_def[symmetric])
  ultimately show ?thesis by blast
qed

lemma weekday_monday: "weekday (fromordinal (7 * k - 6)) = 0"
proof -
  have "(7 * k - 6 + 6) mod 7 = (0::int)" by simp
  then show ?thesis by (simp add: weekday_def toordinal_fromordinal)
qed

lemma weekday_sunday: "weekday (fromordinal (7 * k)) = 6"
  by (simp add: weekday_def toordinal_fromordinal)

lemma between_iff_toordinal:
  assumes "valid_date a" "valid_date b" "valid_date d"
  shows "between a b d = (toordinal a \<le> toordinal d \<and> toordinal d \<le> toordinal b)"
  by (simp add: between_def date_le_iff_toordinal assms)

lemma month_window_eq:
  assumes "valid_date today" "1 < year today \<or> 1 < month today"
  defines "py \<equiv> (if month today = 1 then year today - 1 else year today)"
  defines "pm \<equiv> (if month today = 1 then 12 else month today - 1)"
  shows "month_window today = Inr (\<lparr>year = py, month = pm, day = 1\<rparr>,
                                  \<lparr>year = py, month = pm, day = days_in_month py pm\<rparr>)
         \<and> toordinal \<lparr>year = py, month = pm, day = days_in_month py pm\<rparr> = toordinal today - day today
         \<and> valid_date \<lparr>year = py, month = pm, day = 1\<rparr>
         \<and> valid_date \<lparr>year = py, month = pm, day = days_in_month py pm\<rparr>"
proof -
  let ?L = "\<lparr>year = py, month = pm, day = days_in_month py pm\<rparr>"
  have v: "1 \<le> year today" "year today \<le> 9999" "1 \<le> month today" "month today \<le> 12"
    using assms(1) by (simp_all add: valid_date_def)
  have pm: "1 \<le> pm" "pm \<le> 12" using v by (simp_all add: pm_def)
  have py: "1 \<le> py" "py \<le> 9999" using v assms(2) by (auto simp: py_def)
  have dim: "28 \<le> days_in_month py pm" using dim_cases[OF pm] by simp
  have vL: "valid_date ?L" using pm py dim by (simp add: valid_date_def)
  have vS: "valid_date \<lparr>year = py, month = pm, day = 1\<rparr>" using pm py dim by (simp add: valid_date_def)
  have ord: "toordinal ?L = toordinal today - day today"
  proof (cases "month today = 1")
    case True
    then have e: "py = year today - 1" "pm = 12" by (simp_all add: py_def pm_def)
    have "days_before_year (year today - 1 + 1) = days_before_year (year today - 1) + 365
            + (if is_leap (year today - 1) then 1 else 0)" by (rule dby_step)
    then show ?thesis using True dbm_last[of "year today - 1"] dbm_first[of "year today"]
      by (simp add: toordinal_def ymd2ord_def e)
  next
    case False
    then have e: "py = year today" "pm = month today - 1" by (simp_all add: py_def pm_def)
    have "days_before_month (year today) (month today - 1 + 1)
           = days_before_month (year today) (month today - 1) + days_in_month (year today) (month today - 1)"
      by (rule dbm_succ) (use v False in simp_all)
    then show ?thesis by (simp add: toordinal_def ymd2ord_def e)
  qed
  have rng: "0 < toordinal today - day today" "toordinal today - day today \<le> MAXORDINAL"
    using toordinal_range[OF vL] ord by simp_all
  have s1: "sub_days today (day today) = Inr ?L"
    using sub_days_ok[OF rng] fromordinal_toordinal[OF vL] ord by simp
  have s2: "replace_day ?L 1 = Inr \<lparr>year = py, month = pm, day = 1\<rparr>"
    using dim by (simp add: replace_day_def)
  have "month_window today = Inr (\<lparr>year = py, month = pm, day = 1\<rparr>, ?L)"
    unfolding month_window_def s1 by (simp only: and_then_Inr s2)
  then show ?thesis using ord vL vS by simp
qed

lemma between_month_iff:
  assumes "1 \<le> day d" "day d \<le> days_in_month (year d) (month d)"
  shows "between \<lparr>year = py, month = pm, day = 1\<rparr> \<lparr>year = py, month = pm, day = days_in_month py pm\<rparr> d
         = (year d = py \<and> month d = pm)"
  using assms by (auto simp: between_def date_le_def)

section \<open>Facts about the data frame\<close>

lemma to_row_date: "to_row s x = Inr r \<Longrightarrow> r_date r = e_date x"
  by (auto simp: to_row_def and_then_def split: sum.splits)

lemma to_row_ok:
  assumes "find (\<lambda>c. c_id c = e_category_id x) (categories s) \<noteq> None"
  shows "\<exists>r. to_row s x = Inr r"
  using assms by (auto simp: to_row_def category_name_def split: option.splits)

lemma frame_rows_ok:
  assumes "list_all (\<lambda>x. find (\<lambda>c. c_id c = e_category_id x) (categories s) \<noteq> None) xs"
  shows "\<exists>rs. frame_rows s xs = Inr rs \<and> list_all2 (\<lambda>x r. to_row s x = Inr r) xs rs"
  using assms
proof (induction xs)
  case Nil
  show ?case by simp
next
  case (Cons x xs)
  then obtain rs where rs: "frame_rows s xs = Inr rs" "list_all2 (\<lambda>x r. to_row s x = Inr r) xs rs"
    by auto
  from Cons.prems obtain r where r: "to_row s x = Inr r" using to_row_ok[of x s] by auto
  show ?case using r rs by simp
qed

lemma rows_filter:
  assumes "list_all2 (\<lambda>x r. to_row s x = Inr r) xs rs"
  shows "list_all2 (\<lambda>x r. to_row s x = Inr r)
           (filter (\<lambda>x. P (e_date x)) xs) (filter (\<lambda>r. P (r_date r)) rs)"
  using assms
proof (induction rule: list_all2_induct)
  case Nil
  show ?case by simp
next
  case (Cons x r xs rs)
  then show ?case by (simp add: to_row_date)
qed

text \<open>What a row of the frame holds: the fields of its expense, and the name of the
  category the expense refers to.\<close>

lemma to_row_fields:
  assumes "to_row s x = Inr r"
  shows "r_id r = e_id x \<and> r_date r = e_date x \<and> r_description r = e_description x
         \<and> r_amount r = e_amount x
         \<and> (\<exists>c. find (\<lambda>c. c_id c = e_category_id x) (categories s) = Some c
                \<and> r_category r = c_name c)"
  using assms
  by (auto simp: to_row_def category_name_def and_then_def split: option.splits sum.splits)

lemma rows_fields:
  assumes "list_all2 (\<lambda>x r. to_row s x = Inr r) xs rs"
  shows "list_all2 (\<lambda>x r. r_id r = e_id x \<and> r_date r = e_date x
                     \<and> r_description r = e_description x \<and> r_amount r = e_amount x
                     \<and> (\<exists>c. find (\<lambda>c. c_id c = e_category_id x) (categories s) = Some c
                            \<and> r_category r = c_name c)) xs rs"
  using assms by (rule list_all2_mono) (rule to_row_fields)

lemma windowed_rows:
  assumes "fk_ok s"
  shows "\<exists>df. frame_rows s (expenses s) = Inr df
          \<and> (expenses s = [] \<longrightarrow> df = [])
          \<and> list_all2 (\<lambda>x r. r_id r = e_id x \<and> r_date r = e_date x
                     \<and> r_description r = e_description x \<and> r_amount r = e_amount x
                     \<and> (\<exists>c. find (\<lambda>c. c_id c = e_category_id x) (categories s) = Some c
                            \<and> r_category r = c_name c))
                (filter (\<lambda>x. between a b (e_date x)) (expenses s))
                (filter (\<lambda>r. between a b (r_date r)) df)"
proof -
  from frame_rows_ok[OF assms[unfolded fk_ok_def]] obtain df where
    df: "frame_rows s (expenses s) = Inr df" "list_all2 (\<lambda>x r. to_row s x = Inr r) (expenses s) df"
    by blast
  have "df = []" if "expenses s = []" using df(2) that by simp
  then show ?thesis using df(1) rows_fields[OF rows_filter[OF df(2), of "between a b"]] by blast
qed

lemma week_window_sample:
  "week_window \<lparr>year = 2024, month = 3, day = 20\<rparr>
   = Inr (\<lparr>year = 2024, month = 3, day = 11\<rparr>, \<lparr>year = 2024, month = 3, day = 17\<rparr>)"
  by (simp add: week_window_def sub_days_def weekday_def toordinal_def ymd2ord_def
      days_before_year_def days_before_month_def is_leap_def DAYS_BEFORE_MONTH_def DAYS_IN_MONTH_def
      MAXORDINAL_def fromordinal_def ord2ymd_def month_of_yday_def Let_def)

lemma frame_rows_length: "frame_rows s xs = Inr rs \<Longrightarrow> length rs = length xs"
proof (induction xs arbitrary: rs)
  case Nil
  then show ?case by simp
next
  case (Cons x xs)
  then show ?case by (auto simp: and_then_def split: sum.splits)
qed

lemmas calendar_defs = valid_date_def toordinal_def ymd2ord_def days_before_year_def
  days_before_month_def days_in_month_def is_leap_def DAYS_IN_MONTH_def DAYS_BEFORE_MONTH_def

section \<open>Facts about reading amounts\<close>

lemma digit_not_special:
  assumes "is_digit c"
  shows "c \<noteq> CHR ''_''" "c \<noteq> CHR ''$''" "c \<noteq> CHR ''+''" "c \<noteq> CHR ''-''" "\<not> is_space c"
  using assms by (auto simp: is_digit_def is_space_def)

lemma digits_no_double_underscore: "list_all is_digit ds \<Longrightarrow> \<not> double_underscore ds"
  by (induction ds rule: double_underscore.induct) (auto dest: digit_not_special(1))

lemma digits_takeWhile:
  assumes "list_all is_digit ds"
  shows "takeWhile (\<lambda>c. is_digit c \<or> c = CHR ''_'') ds = ds"
    and "dropWhile (\<lambda>c. is_digit c \<or> c = CHR ''_'') ds = []"
    and "filter is_digit ds = ds"
    and "filter (\<lambda>c. c \<noteq> CHR ''$'') ds = ds"
  using assms by (induction ds) (auto dest: digit_not_special(2))

lemma read_digits_ok:
  assumes "ds \<noteq> []" "list_all is_digit ds" "length ds \<le> MAX_STR_DIGITS"
  shows "read_digits sg ds = Inr (sg * decimal_value ds)"
proof -
  have "is_digit (hd ds)" "is_digit (last ds)"
    using assms(1,2) by (auto simp: list_all_iff)
  then have "hd ds \<noteq> CHR ''_''" "last ds \<noteq> CHR ''_''"
    by (auto dest: digit_not_special(1))
  then show ?thesis
    using assms digits_no_double_underscore[OF assms(2)]
    by (simp add: read_digits_def digits_takeWhile[OF assms(2)] Let_def)
qed

lemma split_sign_digit:
  assumes "ds \<noteq> []" "list_all is_digit ds"
  shows "split_sign (dropWhile is_space ds) = (1, ds)"
proof -
  obtain c cs where ds: "ds = c # cs" using assms(1) by (cases ds) auto
  have c: "is_digit c" using assms(2) ds by simp
  note n = digit_not_special[OF c]
  have "dropWhile is_space (c # cs) = c # cs" using n(5) by simp
  moreover have "split_sign (c # cs) = (1, c # cs)" using n(3,4) by (simp add: split_sign_def)
  ultimately show ?thesis by (simp add: ds)
qed

lemma split_sign_plus: "split_sign (dropWhile is_space (CHR ''+'' # ds)) = (1, ds)"
  by (simp add: split_sign_def is_space_def)

lemma split_sign_minus: "split_sign (dropWhile is_space (CHR ''-'' # ds)) = (- 1, ds)"
  by (simp add: split_sign_def is_space_def)

lemma py_int_digits:
  assumes "ds \<noteq> []" "list_all is_digit ds" "length ds \<le> MAX_STR_DIGITS"
  shows "py_int ds = Inr (decimal_value ds)"
    and "py_int (CHR ''+'' # ds) = Inr (decimal_value ds)"
    and "py_int (CHR ''-'' # ds) = Inr (- decimal_value ds)"
proof -
  show "py_int ds = Inr (decimal_value ds)"
    unfolding py_int_def split_sign_digit[OF assms(1,2)]
    using read_digits_ok[OF assms, of 1] by simp
  show "py_int (CHR ''+'' # ds) = Inr (decimal_value ds)"
    unfolding py_int_def split_sign_plus
    using read_digits_ok[OF assms, of 1] by simp
  show "py_int (CHR ''-'' # ds) = Inr (- decimal_value ds)"
    unfolding py_int_def split_sign_minus
    using read_digits_ok[OF assms, of "- 1"] by simp
qed

lemma read_digits_long:
  assumes "list_all is_digit ds" "length ds > MAX_STR_DIGITS"
  shows "read_digits sg ds = Inl ValueError"
  using assms by (simp add: read_digits_def digits_takeWhile[OF assms(1)] Let_def)

lemma decimal_integer_cases:
  assumes "is_decimal_integer t"
  obtains ds where "ds \<noteq> []" "list_all is_digit ds"
    "t = ds \<or> t = CHR ''+'' # ds \<or> t = CHR ''-'' # ds"
proof (cases t)
  case Nil
  then show ?thesis using assms by (simp add: is_decimal_integer_def)
next
  case (Cons c cs)
  show ?thesis
  proof (cases "c = CHR ''+'' \<or> c = CHR ''-''")
    case True
    then have "cs \<noteq> []" "list_all is_digit cs"
      using assms Cons by (auto simp: is_decimal_integer_def)
    then show ?thesis using that[of cs] True Cons by blast
  next
    case False
    then have "t \<noteq> []" "list_all is_digit t"
      using assms Cons by (auto simp: is_decimal_integer_def)
    then show ?thesis using that[of t] by blast
  qed
qed

text \<open>An amount that is the dollar sign and a decimal integer is read exactly when it
  has at most \<open>MAX_STR_DIGITS\<close> digits.\<close>

lemma dollar_amount_parts:
  assumes "dollar_amount a"
  obtains ds where "ds \<noteq> []" "list_all is_digit ds" "filter is_digit a = ds"
    "amount_value a = py_int ds \<or> amount_value a = py_int (CHR ''+'' # ds)
     \<or> amount_value a = py_int (CHR ''-'' # ds)"
proof -
  from assms obtain t where a: "a = CHR ''$'' # t" and t: "is_decimal_integer t"
    by (cases a) (auto simp: dollar_amount_def)
  from decimal_integer_cases[OF t] obtain ds where
    ds: "ds \<noteq> []" "list_all is_digit ds"
    and c: "t = ds \<or> t = CHR ''+'' # ds \<or> t = CHR ''-'' # ds" by blast
  note f = digits_takeWhile(3,4)[OF ds(2)]
  have nd: "\<not> is_digit (CHR ''$'')" "\<not> is_digit (CHR ''+'')" "\<not> is_digit (CHR ''-'')"
    by (simp_all add: is_digit_def)
  have "strip_dollar a = t" using c f by (auto simp: strip_dollar_def a)
  then have 1: "amount_value a = py_int t" by (simp add: amount_value_def)
  have 2: "filter is_digit a = ds" using c f nd by (auto simp: a)
  show ?thesis using that[OF ds 2] 1 c by auto
qed

lemma dollar_amount_value:
  assumes "dollar_amount a" "length (filter is_digit a) \<le> MAX_STR_DIGITS"
  shows "\<exists>v. amount_value a = Inr v"
proof -
  from dollar_amount_parts[OF assms(1)] obtain ds where
    ds: "ds \<noteq> []" "list_all is_digit ds" "filter is_digit a = ds"
    and c: "amount_value a = py_int ds \<or> amount_value a = py_int (CHR ''+'' # ds)
     \<or> amount_value a = py_int (CHR ''-'' # ds)" by blast
  have "length ds \<le> MAX_STR_DIGITS" using assms(2) ds(3) by simp
  from py_int_digits[OF ds(1,2) this] c show ?thesis by auto
qed

lemma dollar_amount_long:
  assumes "dollar_amount a" "length (filter is_digit a) > MAX_STR_DIGITS"
  shows "amount_value a = Inl ValueError"
proof -
  from dollar_amount_parts[OF assms(1)] obtain ds where
    ds: "ds \<noteq> []" "list_all is_digit ds" "filter is_digit a = ds"
    and c: "amount_value a = py_int ds \<or> amount_value a = py_int (CHR ''+'' # ds)
     \<or> amount_value a = py_int (CHR ''-'' # ds)" by blast
  have l: "length ds > MAX_STR_DIGITS" using assms(2) ds(3) by simp
  note r = read_digits_long[OF ds(2) l]
  have "py_int ds = Inl ValueError" "py_int (CHR ''+'' # ds) = Inl ValueError"
    "py_int (CHR ''-'' # ds) = Inl ValueError"
    unfolding py_int_def split_sign_digit[OF ds(1,2)] split_sign_plus split_sign_minus
    using r by simp_all
  with c show ?thesis by auto
qed

text \<open>The digits \<^verbatim>\<open>str\<close> writes: their number and their value.\<close>

lemma nat_digits_length: "(length (nat_digits m) \<le> Suc k) = (m < 10 ^ Suc k)"
proof (induction m arbitrary: k rule: nat_digits.induct)
  case (1 n)
  show ?case
  proof (cases "n < 10")
    case True
    have "(10::nat) \<le> 10 ^ Suc k" by simp
    with True have "n < 10 ^ Suc k" by linarith
    with True show ?thesis by (simp add: nat_digits.simps[of n])
  next
    case False
    show ?thesis
    proof (cases k)
      case 0
      have "length (nat_digits (n div 10)) > 0"
        by (subst nat_digits.simps) simp
      with False 0 show ?thesis by (simp add: nat_digits.simps[of n])
    next
      case (Suc j)
      have "(n div 10 < 10 ^ Suc j) = (n < 10 ^ Suc (Suc j))"
        by (simp add: div_less_iff_less_mult mult.commute)
      with 1[OF False, of j] False Suc show ?thesis
        by (simp add: nat_digits.simps[of n])
    qed
  qed
qed

lemma py_str_eq:
  "py_str i = (if \<bar>i\<bar> < 10 ^ MAX_STR_DIGITS then Inr (int_text i) else Inl ValueError)"
proof -
  obtain k where k: "MAX_STR_DIGITS = Suc k" by (cases MAX_STR_DIGITS) (simp_all add: MAX_STR_DIGITS_def)
  have "(nat \<bar>i\<bar> < 10 ^ Suc k) = (\<bar>i\<bar> < 10 ^ Suc k)"
    by (simp add: nat_less_iff)
  then show ?thesis using nat_digits_length[of "nat \<bar>i\<bar>" k]
    by (auto simp: py_str_def k)
qed

text \<open>The text \<^verbatim>\<open>str\<close> writes for an integer reads back, with \<^verbatim>\<open>int\<close>, as that integer.\<close>

lemma digit_cases:
  assumes "d < (10::nat)"
  shows "d = 0 \<or> d = 1 \<or> d = 2 \<or> d = 3 \<or> d = 4 \<or> d = 5 \<or> d = 6 \<or> d = 7 \<or> d = 8 \<or> d = 9"
  using assms by arith

lemma digit_char_ok:
  assumes "d < 10"
  shows "is_digit (digit_char d)" and "digit_value (digit_char d) = int d"
  using digit_cases[OF assms]
  by (auto simp: digit_char_def is_digit_def digit_value_def)

lemma decimal_value_snoc: "decimal_value (ds @ [c]) = 10 * decimal_value ds + digit_value c"
  by (simp add: decimal_value_def)

lemma nat_digits_value:
  "nat_digits n \<noteq> [] \<and> list_all is_digit (nat_digits n) \<and> decimal_value (nat_digits n) = int n"
proof (induction n rule: nat_digits.induct)
  case (1 n)
  show ?case
  proof (cases "n < 10")
    case True
    then show ?thesis using digit_char_ok[OF True]
      by (simp add: nat_digits.simps[of n] decimal_value_def)
  next
    case False
    have m: "n mod 10 < 10" by simp
    have "int n = 10 * int (n div 10) + int (n mod 10)"
      by (metis mult_div_mod_eq of_nat_add of_nat_mult of_nat_numeral)
    then show ?thesis using 1[OF False] False digit_char_ok[OF m]
      by (simp add: nat_digits.simps[of n] decimal_value_snoc)
  qed
qed

lemma int_text_read_back:
  assumes "\<bar>i\<bar> < 10 ^ MAX_STR_DIGITS"
  shows "py_int (int_text i) = Inr i"
proof -
  obtain k where k: "MAX_STR_DIGITS = Suc k" by (cases MAX_STR_DIGITS) (simp_all add: MAX_STR_DIGITS_def)
  let ?ds = "nat_digits (nat \<bar>i\<bar>)"
  have "nat \<bar>i\<bar> < 10 ^ Suc k" using assms by (simp add: nat_less_iff k)
  then have len: "length ?ds \<le> MAX_STR_DIGITS" using nat_digits_length[of "nat \<bar>i\<bar>" k] by (simp add: k)
  note v = nat_digits_value[of "nat \<bar>i\<bar>"]
  note p = py_int_digits[OF _ _ len]
  show ?thesis
  proof (cases "i < 0")
    case True
    then have "nat (- i) = nat \<bar>i\<bar>" by simp
    then show ?thesis using True p(3) v by (simp add: int_text_def)
  next
    case False
    then have "nat i = nat \<bar>i\<bar>" by simp
    then show ?thesis using False p(1) v by (simp add: int_text_def)
  qed
qed

lemma small_total: "\<bar>i\<bar> < 1000 \<Longrightarrow> \<bar>i :: int\<bar> < 10 ^ MAX_STR_DIGITS"
proof -
  assume a: "\<bar>i\<bar> < 1000"
  have "(10::int) ^ 3 \<le> 10 ^ MAX_STR_DIGITS"
    by (rule power_increasing) (simp_all add: MAX_STR_DIGITS_def)
  with a show ?thesis by simp
qed

lemma nines_value: "decimal_value (replicate n (CHR ''9'')) = 10 ^ n - 1"
proof -
  have "foldl (\<lambda>acc c. 10 * acc + digit_value c) a (replicate n (CHR ''9'')) = (a + 1) * 10 ^ n - 1"
    for a
  proof (induction n arbitrary: a)
    case 0
    show ?case by simp
  next
    case (Suc n)
    have "digit_value (CHR ''9'') = 9" by (simp add: digit_value_def)
    then show ?case using Suc[of "10 * a + 9"] by (simp add: algebra_simps)
  qed
  from this[of 0] show ?thesis by (simp add: decimal_value_def)
qed

lemma nines_digits: "list_all is_digit (replicate n (CHR ''9''))"
  by (simp add: list_all_iff is_digit_def)

lemma nines_amount:
  "amount_value (CHR ''$'' # replicate MAX_STR_DIGITS (CHR ''9'')) = Inr (10 ^ MAX_STR_DIGITS - 1)"
proof -
  let ?ds = "replicate MAX_STR_DIGITS (CHR ''9'')"
  have ne: "?ds \<noteq> []" by (simp add: MAX_STR_DIGITS_def)
  have "strip_dollar (CHR ''$'' # ?ds) = ?ds"
    using digits_takeWhile(4)[OF nines_digits, of MAX_STR_DIGITS] by (simp add: strip_dollar_def)
  moreover have "py_int ?ds = Inr (decimal_value ?ds)"
    by (rule py_int_digits(1)[OF ne nines_digits]) simp
  ultimately show ?thesis by (simp add: amount_value_def nines_value)
qed

section \<open>Facts about the two totals\<close>

lemmas string_defs = strip_dollar_def is_space_def is_digit_def digit_value_def decimal_value_def
  MAX_STR_DIGITS_def py_int_def split_sign_def read_digits_def py_str_def int_text_def
  digit_char_def nat_digits.simps amount_value_def

lemma amounts_parse:
  assumes "list_all (\<lambda>x. dollar_amount (e_amount x)
                      \<and> length (filter is_digit (e_amount x)) \<le> MAX_STR_DIGITS) xs"
  shows "\<exists>vs. list_all2 (\<lambda>x v. amount_value (e_amount x) = Inr v) xs vs"
  using assms
proof (induction xs)
  case Nil
  show ?case by simp
next
  case (Cons x xs)
  then obtain vs where vs: "list_all2 (\<lambda>x v. amount_value (e_amount x) = Inr v) xs vs" by auto
  from Cons.prems obtain v where "amount_value (e_amount x) = Inr v"
    using dollar_amount_value[of "e_amount x"] by auto
  with vs have "list_all2 (\<lambda>x v. amount_value (e_amount x) = Inr v) (x # xs) (v # vs)" by simp
  then show ?case by blast
qed

lemma total_loop_sum:
  "list_all2 (\<lambda>x v. amount_value (e_amount x) = Inr v) xs vs \<Longrightarrow>
     total_loop xs acc = Inr (acc + sum_list vs)"
proof (induction xs vs arbitrary: acc rule: list_all2_induct)
  case Nil
  show ?case by simp
next
  case (Cons x v xs vs)
  then show ?case by (simp add: add.assoc)
qed

lemma month_loop_sum:
  assumes "list_all2 (\<lambda>x v. amount_value (e_amount x) = Inr v)
             (filter (\<lambda>x. month (e_date x) = i) xs) vs"
  shows "month_loop i xs (tot, names)
         = Inr (tot + sum_list vs,
                names @ concat (map (\<lambda>x. month_name (e_date x)) (filter (\<lambda>x. month (e_date x) = i) xs)))"
  using assms
proof (induction xs arbitrary: tot names vs)
  case Nil
  then show ?case by simp
next
  case (Cons x xs)
  show ?case
  proof (cases "month (e_date x) = i")
    case True
    with Cons.prems obtain v vs' where vs: "vs = v # vs'" "amount_value (e_amount x) = Inr v"
      "list_all2 (\<lambda>x v. amount_value (e_amount x) = Inr v) (filter (\<lambda>x. month (e_date x) = i) xs) vs'"
      by (auto simp: list_all2_Cons1)
    from Cons.IH[OF vs(3)] True vs(1,2) show ?thesis by (simp add: add.assoc)
  next
    case False
    with Cons show ?thesis by simp
  qed
qed

lemma sample_values:
  "amount_value ''$10'' = Inr 10" "amount_value ''$5'' = Inr 5" "amount_value ''$-3'' = Inr (- 3)"
  by (simp_all add: string_defs)

section \<open>Facts about the query by range\<close>

lemma custom_date_rows:
  assumes "frame_rows s (expenses s) = Inr df" "df \<noteq> []"
    "map_of data ''start'' = Some a" "map_of data ''end'' = Some b"
  shows "custom_date data s = Inr (Rows (filter (\<lambda>r. between a b (r_date r)) df), 200)"
proof -
  have "data \<noteq> []" using assms(3) by auto
  then show ?thesis using assms by (simp add: custom_date_def has_key_def get_key_def)
qed

lemma custom_date_no_rows:
  assumes "expenses s = []" "map_of data ''start'' = Some a" "map_of data ''end'' = Some b"
  shows "custom_date data s = Inl KeyError"
proof -
  have "data \<noteq> []" using assms(2) by auto
  then show ?thesis using assms by (simp add: custom_date_def has_key_def)
qed

lemma custom_date_sample:
  "custom_date year_2024 sample_db
   = Inr (Rows [\<lparr>r_id = 1, r_date = \<lparr>year = 2024, month = 3, day = 15\<rparr>, r_description = ''lunch'',
                  r_amount = ''$10'', r_category = ''food''\<rparr>,
                \<lparr>r_id = 3, r_date = \<lparr>year = 2024, month = 2, day = 10\<rparr>, r_description = ''refund'',
                  r_amount = ''$-3'', r_category = ''food''\<rparr>], 200)"
  by (simp add: custom_date_def year_2024_def sample_db_def to_row_def category_name_def
      has_key_def get_key_def between_def date_le_def)

section \<open>Facts about month totals, registration and login\<close>

lemma total_expense_sum:
  assumes "list_all2 (\<lambda>x v. amount_value (e_amount x) = Inr v) (expenses s) vs"
  shows "total_expense s
         = (if \<bar>sum_list vs\<bar> < 10 ^ MAX_STR_DIGITS
            then Inr (Total (''$'' @ int_text (sum_list vs)), 200) else Inl ValueError)"
  using total_loop_sum[OF assms, of 0] by (simp add: total_expense_def py_str_eq)

lemma total_by_month_sum:
  assumes "list_all2 (\<lambda>x v. amount_value (e_amount x) = Inr v)
             (filter (\<lambda>x. month (e_date x) = i) (expenses s)) vs"
  shows "total_by_month i s
         = (if \<bar>sum_list vs\<bar> < 10 ^ MAX_STR_DIGITS
            then Inr (Text (''Total expense for ''
                  @ fromkeys (concat (map (\<lambda>x. month_name (e_date x))
                                (filter (\<lambda>x. month (e_date x) = i) (expenses s))))
                  @ '': $'' @ int_text (sum_list vs)), 200)
            else Inl ValueError)"
  using month_loop_sum[OF assms, of 0 "[]"] by (simp add: total_by_month_def py_str_eq)

lemma total_by_month_march:
  "total_by_month 3 march_db = Inr (Text ''Total expense for March: $150'', 200)"
  by (simp add: total_by_month_def march_db_def string_defs month_name_def MONTH_NAMES_def
      fromkeys_def)

lemma fromkeys_month_names:
  "map fromkeys MONTH_NAMES = [''Janury'', ''Februay'', ''March'', ''April'', ''May'', ''June'', ''July'',
                  ''Augst'', ''Septmbr'', ''October'', ''Novembr'', ''Decmbr'']"
  by (simp add: MONTH_NAMES_def fromkeys_def)

lemma register_stores:
  assumes "map_of data ''name'' = Some n" "map_of data ''email'' = Some e"
    "map_of data ''password'' = Some p" "e \<notin> set (map u_email (users s))"
  shows "register salt data s
         = (Inr (Token (next_id (map u_id (users s))), 200),
            s\<lparr>users := users s @ [\<lparr>u_id = next_id (map u_id (users s)), u_name = n, u_email = e,
                                    u_password_hash = Hash salt p\<rparr>]\<rparr>)"
proof -
  have "data \<noteq> []" using assms(1) by auto
  then show ?thesis using assms by (simp add: register_def has_key_def set_password_def Let_def)
qed

lemma register_distinct_emails:
  assumes "distinct (map u_email (users s))"
  shows "distinct (map u_email (users (snd (register salt data s))))"
  using assms by (auto simp: register_def Let_def split: option.splits)

lemma login_wrong_password:
  assumes "map_of data ''email'' = Some e" "map_of data ''password'' = Some p"
    "find (\<lambda>u. u_email u = e) (users s) = Some u" "\<not> check_password u p"
  shows "login data s = Inr (Text ''email or password is invalid'', 200)"
proof -
  have "data \<noteq> []" using assms(1) by auto
  then show ?thesis using assms by (simp add: login_def has_key_def Let_def)
qed

lemma login_right_password:
  assumes "map_of data ''email'' = Some e" "map_of data ''password'' = Some p"
    "find (\<lambda>u. u_email u = e) (users s) = Some u" "check_password u p"
  shows "login data s = Inr (Token (u_id u), 200)"
proof -
  have "data \<noteq> []" using assms(1) by auto
  then show ?thesis using assms by (simp add: login_def has_key_def Let_def)
qed

section \<open>The foreign key holds in every reachable state\<close>

lemma find_not_None_iff: "(find P xs \<noteq> None) = (\<exists>x\<in>set xs. P x)"
  by (auto simp: find_None_iff)

lemma fk_ok_iff:
  "fk_ok s = (\<forall>x\<in>set (expenses s). \<exists>c\<in>set (categories s). c_id c = e_category_id x)"
  unfolding fk_ok_def list_all_iff find_not_None_iff by (rule refl)

lemma register_keeps_ledger:
  "expenses (snd (register salt data s)) = expenses s"
  "categories (snd (register salt data s)) = categories s"
  by (auto simp: register_def Let_def split: option.splits)

lemma add_fk_ok:
  assumes "fk_ok s"
  shows "fk_ok (snd (add u started data s))"
proof (cases "data = [] \<or> \<not> has_key data ''description'' \<or> \<not> has_key data ''amount''
         \<or> \<not> has_key data ''category''")
  case True
  then show ?thesis using assms by (simp add: add_def)
next
  case False
  then obtain d a cn where k: "map_of data ''description'' = Some d" "map_of data ''amount'' = Some a"
    "map_of data ''category'' = Some cn" by (auto simp: has_key_def)
  show ?thesis
  proof (cases "find (\<lambda>c. c_name c = cn) (categories s)")
    case None
    then show ?thesis using assms False k
      by (auto simp: add_def Let_def fk_ok_iff)
  next
    case (Some c)
    then have "c \<in> set (categories s)" by (auto simp: find_Some_iff)
    then show ?thesis using assms False k Some
      by (auto simp: add_def Let_def fk_ok_iff)
  qed
qed

lemma update_fk_ok:
  assumes "fk_ok s"
  shows "fk_ok (snd (update u i data s))"
proof (cases "find (\<lambda>x. e_id x = i) (expenses s)")
  case None
  then show ?thesis using assms by (simp add: update_def)
next
  case (Some x)
  then have "x \<in> set (expenses s)" by (auto simp: find_Some_iff)
  then show ?thesis using assms Some
    by (auto simp: update_def Let_def fk_ok_iff split: option.splits)
qed

lemma delete_fk_ok:
  assumes "fk_ok s"
  shows "fk_ok (snd (delete u i s))"
  using assms by (auto simp: delete_def fk_ok_iff split: option.splits)

lemma reachable_fk_ok: "reachable s \<Longrightarrow> fk_ok s"
proof (induction rule: reachable.induct)
  case start
  show ?case by (simp add: fk_ok_def empty_db_def)
next
  case (by_register s salt data)
  then show ?case by (simp add: fk_ok_def register_keeps_ledger)
next
  case (by_add s u started data)
  then show ?case by (simp add: add_fk_ok)
next
  case (by_update s u i data)
  then show ?case by (simp add: update_fk_ok)
next
  case (by_delete s u i)
  then show ?case by (simp add: delete_fk_ok)
qed

lemma add_keeps_amount:
  assumes "map_of data ''description'' = Some d" "map_of data ''amount'' = Some a"
    "map_of data ''category'' = Some cn"
  shows "map e_amount (expenses (snd (add u started data s))) = map e_amount (expenses s) @ [a]"
proof -
  have "data \<noteq> []" using assms(1) by auto
  then show ?thesis using assms
    by (auto simp: add_def has_key_def Let_def split: option.splits)
qed

section \<open>The query by range\<close>

text \<open>
  C1. For a ledger whose expenses name existing categories and a body with both bounds,
  \<open>custom_date\<close> returns, with status 200, exactly the expenses \<open>x\<close> with
  \<open>start \<le> date x \<le> end\<close>, both bounds included and whoever owns them, as long as the
  ledger holds at least one expense. On the empty ledger it returns nothing: the frame has
  no column \<open>date\<close> and the handler raises \<open>KeyError\<close>.
\<close>

theorem custom_date_by_range:
  assumes "fk_ok s" "map_of data ''start'' = Some a" "map_of data ''end'' = Some b"
  shows "(expenses s = [] \<longrightarrow> custom_date data s = Inl KeyError)
       \<and> (expenses s \<noteq> [] \<longrightarrow>
            (\<exists>rs. custom_date data s = Inr (Rows rs, 200)
                \<and> list_all2 (\<lambda>x r. to_row s x = Inr r)
                     (filter (\<lambda>x. between a b (e_date x)) (expenses s)) rs))"
proof -
  from frame_rows_ok[OF assms(1)[unfolded fk_ok_def]] obtain df where
    df: "frame_rows s (expenses s) = Inr df" "list_all2 (\<lambda>x r. to_row s x = Inr r) (expenses s) df"
    by blast
  have "\<exists>rs. custom_date data s = Inr (Rows rs, 200)
                \<and> list_all2 (\<lambda>x r. to_row s x = Inr r)
                     (filter (\<lambda>x. between a b (e_date x)) (expenses s)) rs"
    if ne: "expenses s \<noteq> []"
  proof -
    have "df \<noteq> []" using df(2) ne by auto
    from custom_date_rows[OF df(1) this assms(2,3)] rows_filter[OF df(2), of "between a b"]
    show ?thesis by blast
  qed
  then show ?thesis using custom_date_no_rows[OF _ assms(2,3)] by blast
qed

theorem custom_date_by_range_witness:
  "fk_ok empty_db
   \<and> map_of year_2024 ''start'' = Some \<lparr>year = 2024, month = 1, day = 1\<rparr>
   \<and> map_of year_2024 ''end'' = Some \<lparr>year = 2024, month = 12, day = 31\<rparr>
   \<and> expenses empty_db = []
   \<and> custom_date year_2024 empty_db = Inl KeyError"
proof -
  have 1: "fk_ok empty_db" by (simp add: fk_ok_def empty_db_def)
  have 2: "map_of year_2024 ''start'' = Some \<lparr>year = 2024, month = 1, day = 1\<rparr>"
    by (simp add: year_2024_def)
  have 3: "map_of year_2024 ''end'' = Some \<lparr>year = 2024, month = 12, day = 31\<rparr>"
    by (simp add: year_2024_def)
  have 4: "expenses empty_db = []" by (simp add: empty_db_def)
  from custom_date_by_range[OF 1 2 3] 1 2 3 4 show ?thesis by blast
qed

text \<open>
  C9. When no expense lies within the bounds, \<open>custom_date\<close> answers with the empty list
  and status 200 if the ledger holds an expense, and raises \<open>KeyError\<close> if the ledger is
  empty; the request then ends with status 500.
\<close>

theorem custom_date_nothing_in_range:
  assumes "fk_ok s" "map_of data ''start'' = Some a" "map_of data ''end'' = Some b"
    "filter (\<lambda>x. between a b (e_date x)) (expenses s) = []"
  shows "custom_date data s = (if expenses s = [] then Inl KeyError else Inr (Rows [], 200))"
proof (cases "expenses s = []")
  case True
  then show ?thesis using custom_date_no_rows[OF True assms(2,3)] by simp
next
  case False
  from frame_rows_ok[OF assms(1)[unfolded fk_ok_def]] obtain df where
    df: "frame_rows s (expenses s) = Inr df" "list_all2 (\<lambda>x r. to_row s x = Inr r) (expenses s) df"
    by blast
  have ne: "df \<noteq> []" using df(2) False by auto
  have "filter (\<lambda>r. between a b (r_date r)) df = []"
    using rows_filter[OF df(2), of "between a b"] assms(4) by simp
  then show ?thesis using custom_date_rows[OF df(1) ne assms(2,3)] False by simp
qed

theorem custom_date_nothing_in_range_witness:
  "fk_ok empty_db
   \<and> map_of year_2024 ''start'' = Some \<lparr>year = 2024, month = 1, day = 1\<rparr>
   \<and> map_of year_2024 ''end'' = Some \<lparr>year = 2024, month = 12, day = 31\<rparr>
   \<and> filter (\<lambda>x. between \<lparr>year = 2024, month = 1, day = 1\<rparr> \<lparr>year = 2024, month = 12, day = 31\<rparr> (e_date x))
        (expenses empty_db) = []
   \<and> custom_date year_2024 empty_db = Inl KeyError
   \<and> http_status (custom_date year_2024 empty_db) = 500"
proof -
  have 1: "fk_ok empty_db" by (simp add: fk_ok_def empty_db_def)
  have 2: "map_of year_2024 ''start'' = Some \<lparr>year = 2024, month = 1, day = 1\<rparr>"
    by (simp add: year_2024_def)
  have 3: "map_of year_2024 ''end'' = Some \<lparr>year = 2024, month = 12, day = 31\<rparr>"
    by (simp add: year_2024_def)
  have 4: "filter (\<lambda>x. between \<lparr>year = 2024, month = 1, day = 1\<rparr> \<lparr>year = 2024, month = 12, day = 31\<rparr> (e_date x))
        (expenses empty_db) = []" by (simp add: empty_db_def)
  have 5: "expenses empty_db = []" by (simp add: empty_db_def)
  from custom_date_nothing_in_range[OF 1 2 3 4] 5
  have "custom_date year_2024 empty_db = Inl KeyError" by simp
  then show ?thesis using 1 2 3 4 by (simp add: http_status_def)
qed

section \<open>The total of all expenses\<close>

text \<open>
  C2, as amended. For every ledger in which each amount, with its dollar signs removed,
  reads as an integer, \<open>total_expense\<close> answers with the dollar sign followed by the
  decimal text of the exact sum of those integers over all expenses, whoever owns them,
  when that text has at most \<open>MAX_STR_DIGITS\<close> digits (the text, read back as an integer,
  is the sum); when it has more, the conversion of the sum to text raises \<open>ValueError\<close>.
  The amounts \<open>$10\<close>, \<open>$5\<close> and \<open>$-3\<close> of two owners give \<open>$12\<close>.
\<close>

theorem total_exact_sum:
  assumes "list_all2 (\<lambda>x v. amount_value (e_amount x) = Inr v) (expenses s) vs"
  shows "total_expense s
         = (if \<bar>sum_list vs\<bar> < 10 ^ MAX_STR_DIGITS
            then Inr (Total (''$'' @ int_text (sum_list vs)), 200) else Inl ValueError)
       \<and> (\<bar>sum_list vs\<bar> < 10 ^ MAX_STR_DIGITS \<longrightarrow>
            py_int (int_text (sum_list vs)) = Inr (sum_list vs))"
  using total_expense_sum[OF assms] int_text_read_back[of "sum_list vs"] by blast

theorem total_exact_sum_witness:
  "list_all2 (\<lambda>x v. amount_value (e_amount x) = Inr v) (expenses sample_db) [10, 5, - 3]
   \<and> map e_amount (expenses sample_db) = [''$10'', ''$5'', ''$-3'']
   \<and> map e_user_id (expenses sample_db) = [1, 2, 1]
   \<and> \<bar>sum_list [10, 5, - 3 :: int]\<bar> < 10 ^ MAX_STR_DIGITS
   \<and> total_expense sample_db = Inr (Total ''$12'', 200)"
proof -
  have 1: "list_all2 (\<lambda>x v. amount_value (e_amount x) = Inr v) (expenses sample_db) [10, 5, - 3]"
    by (simp add: sample_db_def sample_values)
  have 2: "\<bar>sum_list [10, 5, - 3 :: int]\<bar> < 10 ^ MAX_STR_DIGITS"
    by (rule small_total) simp
  have 3: "''$'' @ int_text (sum_list [10, 5, - 3]) = ''$12''"
    by (simp add: int_text_def nat_digits.simps digit_char_def)
  have "total_expense sample_db = Inr (Total ''$12'', 200)"
    using total_exact_sum[OF 1] 2 3 by simp
  with 1 2 show ?thesis by (simp add: sample_db_def)
qed

text \<open>
  C2, as stated, fails: two amounts of \<open>MAX_STR_DIGITS\<close> nines each are read, their sum has
  one digit more, and \<open>total_expense\<close> raises \<open>ValueError\<close> instead of answering with the
  sum.
\<close>

theorem total_of_long_amounts:
  "list_all2 (\<lambda>x v. amount_value (e_amount x) = Inr v) (expenses nines_db)
     [10 ^ MAX_STR_DIGITS - 1, 10 ^ MAX_STR_DIGITS - 1]
   \<and> total_expense nines_db = Inl ValueError"
proof -
  have 1: "list_all2 (\<lambda>x v. amount_value (e_amount x) = Inr v) (expenses nines_db)
     [10 ^ MAX_STR_DIGITS - 1, 10 ^ MAX_STR_DIGITS - 1]"
    by (simp add: nines_db_def nines_amount)
  define P :: int where "P = 10 ^ MAX_STR_DIGITS"
  have "(10::int) ^ 1 \<le> 10 ^ MAX_STR_DIGITS"
    by (rule power_increasing) (simp_all add: MAX_STR_DIGITS_def)
  then have "10 \<le> P" by (simp add: P_def)
  then have "\<not> \<bar>sum_list [P - 1, P - 1]\<bar> < P" by simp
  then have "total_expense nines_db = Inl ValueError"
    using total_expense_sum[OF 1] by (simp add: P_def)
  with 1 show ?thesis by simp
qed

section \<open>The total of a calendar month\<close>

text \<open>
  C3. \<open>total_by_month\<close> sums the amounts of the expenses whose month is the given one, over
  all years and owners (\<open>total_by_month_sum\<close>), and the ledger of the scenario gives
  \<open>Total expense for March: $150\<close> (\<open>total_by_month_march\<close>). The month name, however, is
  passed through \<open>dict.fromkeys\<close> as a string, which drops every repeated letter instead of
  every repeated name: an expense of 10 February 2024 of \<open>$5\<close> gives the name
  \<open>Februay\<close>, not \<open>February\<close>.
\<close>

theorem total_by_month_february:
  "total_by_month 2 february_db = Inr (Text ''Total expense for Februay: $5'', 200)"
  by (simp add: total_by_month_def february_db_def string_defs month_name_def MONTH_NAMES_def
      fromkeys_def)

section \<open>The window of the previous week\<close>

text \<open>
  C4. For every ledger whose expenses name existing categories and every current date
  after the first week of year 1, \<open>past_week\<close> answers with status 200 and returns
  exactly the expenses dated within \<open>[a, b]\<close>, each as a row of its own id, date,
  description and amount and the name of its category, in the order of the ledger.
  \<open>a\<close> and \<open>b\<close> are computed from the current date alone: \<open>a\<close> is a Monday, \<open>b\<close> the Sunday
  six days later, and the current date is one of the seven days after \<open>b\<close>. So the window
  is the calendar week before the current one, and no expense dated in the current week is
  returned. When the window holds no expense the answer is a message and carries no row.
\<close>

theorem past_week_window:
  assumes "valid_date today" "7 < toordinal today" "fk_ok s"
  shows "\<exists>a b rs.
           week_window today = Inr (a, b) \<and> valid_date a \<and> valid_date b
           \<and> weekday a = 0 \<and> weekday b = 6 \<and> toordinal b = toordinal a + 6
           \<and> toordinal b < toordinal today \<and> toordinal today \<le> toordinal b + 7
           \<and> (\<forall>x\<in>set (expenses s). valid_date (e_date x) \<longrightarrow>
                  between a b (e_date x)
                  = (toordinal a \<le> toordinal (e_date x) \<and> toordinal (e_date x) \<le> toordinal b))
           \<and> list_all2 (\<lambda>x r. r_id r = e_id x \<and> r_date r = e_date x
                     \<and> r_description r = e_description x \<and> r_amount r = e_amount x
                     \<and> (\<exists>c. find (\<lambda>c. c_id c = e_category_id x) (categories s) = Some c
                            \<and> r_category r = c_name c))
                (filter (\<lambda>x. between a b (e_date x)) (expenses s)) rs
           \<and> past_week today s
               = Inr (if rs = []
                      then (Message (if expenses s = [] then ''expense not found''
                                     else ''expense past week not found''), 200)
                      else (Rows rs, 200))"
proof -
  from week_window_eq[OF assms(1,2)] obtain k where k: "1 \<le> k"
    "week_window today = Inr (fromordinal (7 * k - 6), fromordinal (7 * k))"
    "7 * k < toordinal today" "toordinal today \<le> 7 * k + 7" by blast
  let ?a = "fromordinal (7 * k - 6)" and ?b = "fromordinal (7 * k)"
  have tmax: "toordinal today \<le> MAXORDINAL" by (rule toordinal_range(2)[OF assms(1)])
  have va: "valid_date ?a" by (rule fromordinal_valid) (use k tmax in simp_all)
  have vb: "valid_date ?b" by (rule fromordinal_valid) (use k tmax in simp_all)
  from windowed_rows[OF assms(3), of ?a ?b] obtain df where
    df: "frame_rows s (expenses s) = Inr df" "expenses s = [] \<longrightarrow> df = []"
    and rows: "list_all2 (\<lambda>x r. r_id r = e_id x \<and> r_date r = e_date x
                     \<and> r_description r = e_description x \<and> r_amount r = e_amount x
                     \<and> (\<exists>c. find (\<lambda>c. c_id c = e_category_id x) (categories s) = Some c
                            \<and> r_category r = c_name c))
                (filter (\<lambda>x. between ?a ?b (e_date x)) (expenses s))
                (filter (\<lambda>r. between ?a ?b (r_date r)) df)"
    by blast
  define flt where "flt = filter (\<lambda>r. between ?a ?b (r_date r)) df"
  have "flt = []" if "expenses s = []" using df(2) that by (simp add: flt_def)
  then have pw: "past_week today s
               = Inr (if flt = []
                      then (Message (if expenses s = [] then ''expense not found''
                                     else ''expense past week not found''), 200)
                      else (Rows flt, 200))"
    by (simp add: past_week_def df(1) k(2) flt_def Let_def)
  have "weekday ?a = 0" "weekday ?b = 6" by (rule weekday_monday, rule weekday_sunday)
  moreover have "toordinal ?b = toordinal ?a + 6" by (simp add: toordinal_fromordinal)
  moreover have "toordinal ?b < toordinal today" "toordinal today \<le> toordinal ?b + 7"
    using k by (simp_all add: toordinal_fromordinal)
  moreover have "\<forall>x\<in>set (expenses s). valid_date (e_date x) \<longrightarrow>
                  between ?a ?b (e_date x)
                  = (toordinal ?a \<le> toordinal (e_date x) \<and> toordinal (e_date x) \<le> toordinal ?b)"
    using between_iff_toordinal[OF va vb] by blast
  ultimately show ?thesis using k(2) va vb pw rows[folded flt_def] by blast
qed

theorem past_week_window_witness:
  "valid_date \<lparr>year = 2024, month = 3, day = 20\<rparr>
   \<and> 7 < toordinal \<lparr>year = 2024, month = 3, day = 20\<rparr>
   \<and> fk_ok sample_db
   \<and> week_window \<lparr>year = 2024, month = 3, day = 20\<rparr>
       = Inr (\<lparr>year = 2024, month = 3, day = 11\<rparr>, \<lparr>year = 2024, month = 3, day = 17\<rparr>)
   \<and> past_week \<lparr>year = 2024, month = 3, day = 20\<rparr> sample_db
       = Inr (Rows [\<lparr>r_id = 1, r_date = \<lparr>year = 2024, month = 3, day = 15\<rparr>,
                      r_description = ''lunch'', r_amount = ''$10'', r_category = ''food''\<rparr>], 200)"
proof -
  let ?t = "\<lparr>year = 2024, month = 3, day = 20\<rparr>"
  let ?a = "\<lparr>year = 2024, month = 3, day = 11\<rparr>" and ?b = "\<lparr>year = 2024, month = 3, day = 17\<rparr>"
  have 1: "valid_date ?t" by (simp add: calendar_defs)
  have 2: "7 < toordinal ?t" by (simp add: calendar_defs)
  have 3: "fk_ok sample_db" by (simp add: fk_ok_def sample_db_def)
  from past_week_window[OF 1 2 3] obtain a b rs where
    w: "week_window ?t = Inr (a, b)"
    and rows: "list_all2 (\<lambda>x r. r_id r = e_id x \<and> r_date r = e_date x
                     \<and> r_description r = e_description x \<and> r_amount r = e_amount x
                     \<and> (\<exists>c. find (\<lambda>c. c_id c = e_category_id x) (categories sample_db) = Some c
                            \<and> r_category r = c_name c))
                (filter (\<lambda>x. between a b (e_date x)) (expenses sample_db)) rs"
    and pw: "past_week ?t sample_db
               = Inr (if rs = []
                      then (Message (if expenses sample_db = [] then ''expense not found''
                                     else ''expense past week not found''), 200)
                      else (Rows rs, 200))"
    by blast
  from w have ab: "a = ?a" "b = ?b" by (simp_all add: week_window_sample)
  have "filter (\<lambda>x. between ?a ?b (e_date x)) (expenses sample_db) = [hd (expenses sample_db)]"
    by (simp add: sample_db_def between_def date_le_def)
  with rows obtain r where r: "rs = [r]" "r_id r = 1" "r_date r = \<lparr>year = 2024, month = 3, day = 15\<rparr>"
    "r_description r = ''lunch''" "r_amount r = ''$10''" "r_category r = ''food''"
    unfolding ab by (auto simp: list_all2_Cons1 sample_db_def)
  then have "rs = [\<lparr>r_id = 1, r_date = \<lparr>year = 2024, month = 3, day = 15\<rparr>,
                      r_description = ''lunch'', r_amount = ''$10'', r_category = ''food''\<rparr>]"
    by (cases r) simp
  with pw 1 2 3 show ?thesis by (simp add: week_window_sample)
qed

section \<open>The window of the previous month\<close>

text \<open>
  C5. For every ledger whose expenses name existing categories and every current date
  later than January of year 1, \<open>past_month\<close> answers with status 200 and returns exactly
  the expenses dated within \<open>[a, b]\<close>, each as a row of its own id, date, description and
  amount and the name of its category, in the order of the ledger. \<open>a\<close> is the first day of
  the calendar month before the current one and \<open>b\<close> its last day, the day before the first
  of the current month; an expense with a valid date is in the window exactly when its
  year and month are those of that month. When the window holds no expense the answer is a
  message and carries no row.
\<close>

theorem past_month_window:
  assumes "valid_date today" "1 < year today \<or> 1 < month today" "fk_ok s"
  shows "\<exists>a b rs.
           month_window today = Inr (a, b)
           \<and> year a = (if month today = 1 then year today - 1 else year today)
           \<and> month a = (if month today = 1 then 12 else month today - 1)
           \<and> day a = 1 \<and> year b = year a \<and> month b = month a
           \<and> day b = days_in_month (year a) (month a)
           \<and> toordinal b + 1 = toordinal (today\<lparr>day := 1\<rparr>)
           \<and> (\<forall>x\<in>set (expenses s). valid_date (e_date x) \<longrightarrow>
                  between a b (e_date x)
                  = (year (e_date x) = year a \<and> month (e_date x) = month a))
           \<and> list_all2 (\<lambda>x r. r_id r = e_id x \<and> r_date r = e_date x
                     \<and> r_description r = e_description x \<and> r_amount r = e_amount x
                     \<and> (\<exists>c. find (\<lambda>c. c_id c = e_category_id x) (categories s) = Some c
                            \<and> r_category r = c_name c))
                (filter (\<lambda>x. between a b (e_date x)) (expenses s)) rs
           \<and> past_month today s
               = Inr (if rs = []
                      then (Message (if expenses s = [] then ''expense not found''
                                     else ''expense past month not found''), 200)
                      else (Rows rs, 200))"
proof -
  define py where "py = (if month today = 1 then year today - 1 else year today)"
  define pm where "pm = (if month today = 1 then 12 else month today - 1)"
  let ?a = "\<lparr>year = py, month = pm, day = 1\<rparr>"
  let ?b = "\<lparr>year = py, month = pm, day = days_in_month py pm\<rparr>"
  from month_window_eq[OF assms(1,2)]
  have mw: "month_window today = Inr (?a, ?b)"
    and ord: "toordinal ?b = toordinal today - day today"
    by (simp_all add: py_def pm_def)
  from windowed_rows[OF assms(3), of ?a ?b] obtain df where
    df: "frame_rows s (expenses s) = Inr df" "expenses s = [] \<longrightarrow> df = []"
    and rows: "list_all2 (\<lambda>x r. r_id r = e_id x \<and> r_date r = e_date x
                     \<and> r_description r = e_description x \<and> r_amount r = e_amount x
                     \<and> (\<exists>c. find (\<lambda>c. c_id c = e_category_id x) (categories s) = Some c
                            \<and> r_category r = c_name c))
                (filter (\<lambda>x. between ?a ?b (e_date x)) (expenses s))
                (filter (\<lambda>r. between ?a ?b (r_date r)) df)"
    by blast
  define flt where "flt = filter (\<lambda>r. between ?a ?b (r_date r)) df"
  have "flt = []" if "expenses s = []" using df(2) that by (simp add: flt_def)
  then have pw: "past_month today s
               = Inr (if flt = []
                      then (Message (if expenses s = [] then ''expense not found''
                                     else ''expense past month not found''), 200)
                      else (Rows flt, 200))"
    by (simp add: past_month_def df(1) mw flt_def Let_def)
  have first: "toordinal ?b + 1 = toordinal (today\<lparr>day := 1\<rparr>)"
    using ord by (simp add: toordinal_def ymd2ord_def)
  have sel: "\<forall>x\<in>set (expenses s). valid_date (e_date x) \<longrightarrow>
                  between ?a ?b (e_date x) = (year (e_date x) = year ?a \<and> month (e_date x) = month ?a)"
    using between_month_iff[of _ py pm] by (simp add: valid_date_def)
  have "month_window today = Inr (?a, ?b)
           \<and> year ?a = py \<and> month ?a = pm
           \<and> day ?a = 1 \<and> year ?b = year ?a \<and> month ?b = month ?a
           \<and> day ?b = days_in_month (year ?a) (month ?a)
           \<and> toordinal ?b + 1 = toordinal (today\<lparr>day := 1\<rparr>)
           \<and> (\<forall>x\<in>set (expenses s). valid_date (e_date x) \<longrightarrow>
                  between ?a ?b (e_date x)
                  = (year (e_date x) = year ?a \<and> month (e_date x) = month ?a))
           \<and> list_all2 (\<lambda>x r. r_id r = e_id x \<and> r_date r = e_date x
                     \<and> r_description r = e_description x \<and> r_amount r = e_amount x
                     \<and> (\<exists>c. find (\<lambda>c. c_id c = e_category_id x) (categories s) = Some c
                            \<and> r_category r = c_name c))
                (filter (\<lambda>x. between ?a ?b (e_date x)) (expenses s)) flt
           \<and> past_month today s
               = Inr (if flt = []
                      then (Message (if expenses s = [] then ''expense not found''
                                     else ''expense past month not found''), 200)
                      else (Rows flt, 200))"
    using mw first sel pw rows[folded flt_def] by simp
  then show ?thesis unfolding py_def pm_def by blast
qed

theorem past_month_window_witness:
  "valid_date \<lparr>year = 2024, month = 3, day = 20\<rparr>
   \<and> (1 < year \<lparr>year = 2024, month = 3, day = 20\<rparr> \<or> 1 < month \<lparr>year = 2024, month = 3, day = 20\<rparr>)
   \<and> fk_ok sample_db
   \<and> month_window \<lparr>year = 2024, month = 3, day = 20\<rparr>
       = Inr (\<lparr>year = 2024, month = 2, day = 1\<rparr>, \<lparr>year = 2024, month = 2, day = 29\<rparr>)
   \<and> past_month \<lparr>year = 2024, month = 3, day = 20\<rparr> sample_db
       = Inr (Rows [\<lparr>r_id = 3, r_date = \<lparr>year = 2024, month = 2, day = 10\<rparr>,
                      r_description = ''refund'', r_amount = ''$-3'', r_category = ''food''\<rparr>], 200)"
proof -
  let ?t = "\<lparr>year = 2024, month = 3, day = 20\<rparr>"
  let ?a = "\<lparr>year = 2024, month = 2, day = 1\<rparr>" and ?b = "\<lparr>year = 2024, month = 2, day = 29\<rparr>"
  have 1: "valid_date ?t" by (simp add: calendar_defs)
  have 2: "1 < year ?t \<or> 1 < month ?t" by simp
  have 3: "fk_ok sample_db" by (simp add: fk_ok_def sample_db_def)
  from past_month_window[OF 1 2 3] obtain a b rs where
    w: "month_window ?t = Inr (a, b)" "year a = 2024" "month a = 2" "day a = 1"
       "year b = year a" "month b = month a" "day b = days_in_month (year a) (month a)"
    and rows: "list_all2 (\<lambda>x r. r_id r = e_id x \<and> r_date r = e_date x
                     \<and> r_description r = e_description x \<and> r_amount r = e_amount x
                     \<and> (\<exists>c. find (\<lambda>c. c_id c = e_category_id x) (categories sample_db) = Some c
                            \<and> r_category r = c_name c))
                (filter (\<lambda>x. between a b (e_date x)) (expenses sample_db)) rs"
    and pw: "past_month ?t sample_db
               = Inr (if rs = []
                      then (Message (if expenses sample_db = [] then ''expense not found''
                                     else ''expense past month not found''), 200)
                      else (Rows rs, 200))"
    by auto
  have a: "a = ?a" using w(2,3,4) by simp
  have "day b = 29" using w(7) w(2,3) by (simp add: calendar_defs)
  then have b: "b = ?b" using w(2,3,5,6) by simp
  have "filter (\<lambda>x. between ?a ?b (e_date x)) (expenses sample_db) = [last (expenses sample_db)]"
    by (simp add: sample_db_def between_def date_le_def)
  with rows obtain r where r: "rs = [r]" "r_id r = 3" "r_date r = \<lparr>year = 2024, month = 2, day = 10\<rparr>"
    "r_description r = ''refund''" "r_amount r = ''$-3''" "r_category r = ''food''"
    unfolding a b by (auto simp: list_all2_Cons1 sample_db_def)
  then have "rs = [\<lparr>r_id = 3, r_date = \<lparr>year = 2024, month = 2, day = 10\<rparr>,
                      r_description = ''refund'', r_amount = ''$-3'', r_category = ''food''\<rparr>]"
    by (cases r) simp
  with pw w(1) 1 2 3 show ?thesis unfolding a b by simp
qed

section \<open>Update and delete by another user\<close>

text \<open>
  C6. When the expense exists and the caller is not its owner, \<open>update\<close> and \<open>delete\<close>
  both leave every table as it was. \<open>delete\<close> answers with the message \<open>Forbidden\<close> and
  status 403; \<open>update\<close> answers with the message \<open>Forbbiden\<close> and status 200, which is not
  the forbidden answer of the specification.
\<close>

theorem refusal_of_non_owner:
  assumes "find (\<lambda>x. e_id x = i) (expenses s) = Some x" "e_user_id x \<noteq> u"
  shows "update u i data s = (Inr (Message ''Forbbiden'', 200), s)
       \<and> delete u i s = (Inr (Message ''Forbidden'', 403), s)
       \<and> \<not> forbidden_response (fst (update u i data s))
       \<and> forbidden_response (fst (delete u i s))"
  using assms by (simp add: update_def delete_def forbidden_response_def http_status_def)

theorem refusal_of_non_owner_witness:
  "find (\<lambda>x. e_id x = 1) (expenses sample_db) = Some (hd (expenses sample_db))
   \<and> e_user_id (hd (expenses sample_db)) \<noteq> 2
   \<and> update 2 1 [(''description'', ''dinner''), (''amount'', ''$99'')] sample_db
       = (Inr (Message ''Forbbiden'', 200), sample_db)
   \<and> delete 2 1 sample_db = (Inr (Message ''Forbidden'', 403), sample_db)"
proof -
  have 1: "find (\<lambda>x. e_id x = 1) (expenses sample_db) = Some (hd (expenses sample_db))"
    by (simp add: sample_db_def)
  have 2: "e_user_id (hd (expenses sample_db)) \<noteq> 2" by (simp add: sample_db_def)
  from refusal_of_non_owner[OF 1 2, of "[(''description'', ''dinner''), (''amount'', ''$99'')]"] 1 2
  show ?thesis by blast
qed

section \<open>Registration with a stored email\<close>

text \<open>
  C7, as amended. When the email of the body is already stored, \<open>register\<close> fails with the
  \<open>IntegrityError\<close> of the commit, which nothing catches, so the request ends with status
  500; the tables are unchanged, and no second user with that email is created.
\<close>

theorem register_duplicate_email:
  assumes "map_of data ''name'' = Some n" "map_of data ''email'' = Some e"
    "map_of data ''password'' = Some p" "e \<in> set (map u_email (users s))"
  shows "register salt data s = (Inl IntegrityError, s)
       \<and> http_status (fst (register salt data s)) = 500"
proof -
  have "data \<noteq> []" using assms(1) by auto
  then show ?thesis using assms by (simp add: register_def has_key_def Let_def http_status_def)
qed

theorem register_duplicate_email_witness:
  "map_of ann_again ''name'' = Some ''ann2'' \<and> map_of ann_again ''email'' = Some ''ann@example.org''
   \<and> map_of ann_again ''password'' = Some ''other''
   \<and> ''ann@example.org'' \<in> set (map u_email (users sample_db))
   \<and> register ''s3'' ann_again sample_db = (Inl IntegrityError, sample_db)"
proof -
  have 1: "map_of ann_again ''name'' = Some ''ann2''" by (simp add: ann_again_def)
  have 2: "map_of ann_again ''email'' = Some ''ann@example.org''" by (simp add: ann_again_def)
  have 3: "map_of ann_again ''password'' = Some ''other''" by (simp add: ann_again_def)
  have 4: "''ann@example.org'' \<in> set (map u_email (users sample_db))" by (simp add: sample_db_def)
  from register_duplicate_email[OF 1 2 3 4, of "''s3''"] 1 2 3 4 show ?thesis by blast
qed

text \<open>
  C7, as stated, fails: the registration of a stored email is not answered with the
  conflict answer (status 409) of the specification.
\<close>

theorem register_duplicate_not_conflict:
  "\<not> conflict_response (fst (register ''s3'' ann_again sample_db))"
  by (simp add: register_def ann_again_def sample_db_def has_key_def Let_def
      conflict_response_def http_status_def)

section \<open>Login with an unknown email\<close>

text \<open>
  C8. When no user has the email of the body, \<open>login\<close> raises \<open>AttributeError\<close>: the
  handler reads the id of the user it did not find before it tests for it. (With a stored
  email and a wrong password it answers \<open>email or password is invalid\<close>,
  \<open>login_wrong_password\<close>.)
\<close>

theorem login_unknown_email:
  assumes "map_of data ''email'' = Some e" "map_of data ''password'' = Some p"
    "find (\<lambda>u. u_email u = e) (users s) = None"
  shows "login data s = Inl AttributeError"
proof -
  have "data \<noteq> []" using assms(1) by auto
  then show ?thesis using assms by (simp add: login_def has_key_def)
qed

theorem login_unknown_email_witness:
  "map_of carl_login ''email'' = Some ''carl@example.org''
   \<and> map_of carl_login ''password'' = Some ''secret''
   \<and> find (\<lambda>u. u_email u = ''carl@example.org'') (users sample_db) = None
   \<and> login carl_login sample_db = Inl AttributeError"
proof -
  have 1: "map_of carl_login ''email'' = Some ''carl@example.org''" by (simp add: carl_login_def)
  have 2: "map_of carl_login ''password'' = Some ''secret''" by (simp add: carl_login_def)
  have 3: "find (\<lambda>u. u_email u = ''carl@example.org'') (users sample_db) = None"
    by (simp add: sample_db_def)
  from login_unknown_email[OF 1 2 3] 1 2 3 show ?thesis by blast
qed

section \<open>Amounts the totals cannot read\<close>

text \<open>
  C10, as amended. When every stored amount is the dollar sign followed by a decimal
  integer of at most \<open>MAX_STR_DIGITS\<close> digits, every amount is read, so the loops of
  \<open>total_expense\<close> and of \<open>total_by_month\<close> return their totals and each handler answers what
  the conversion of its total to text gives. Without that precondition they may fail:
  \<open>add\<close> stores any text as the amount, so a state with an amount that is no integer is
  reachable (one registration and one \<open>add\<close> from the empty tables), and on it both
  \<open>total_expense\<close> and \<open>total_by_month\<close> raise \<open>ValueError\<close> when they read the amount.
\<close>

theorem totals_need_dollar_amounts:
  "(list_all (\<lambda>x. dollar_amount (e_amount x)
                 \<and> length (filter is_digit (e_amount x)) \<le> MAX_STR_DIGITS) (expenses s) \<longrightarrow>
      list_all (\<lambda>x. \<exists>v. amount_value (e_amount x) = Inr v) (expenses s)
      \<and> (\<exists>t. total_loop (expenses s) 0 = Inr t
              \<and> total_expense s = and_then (py_str t) (\<lambda>digits. Inr (Total (''$'' @ digits), 200)))
      \<and> (\<exists>t names. month_loop i (expenses s) (0, []) = Inr (t, names)
              \<and> total_by_month i s
                  = and_then (py_str t) (\<lambda>digits.
                      Inr (Text (''Total expense for '' @ fromkeys names @ '': $'' @ digits), 200))))
   \<and> (\<exists>s'. reachable s'
          \<and> list_all (\<lambda>x. amount_value (e_amount x) = Inl ValueError) (expenses s')
          \<and> expenses s' \<noteq> []
          \<and> total_expense s' = Inl ValueError
          \<and> total_by_month 3 s' = Inl ValueError)"
proof -
  have a: "list_all (\<lambda>x. \<exists>v. amount_value (e_amount x) = Inr v) (expenses s)
      \<and> (\<exists>t. total_loop (expenses s) 0 = Inr t
              \<and> total_expense s = and_then (py_str t) (\<lambda>digits. Inr (Total (''$'' @ digits), 200)))
      \<and> (\<exists>t names. month_loop i (expenses s) (0, []) = Inr (t, names)
              \<and> total_by_month i s
                  = and_then (py_str t) (\<lambda>digits.
                      Inr (Text (''Total expense for '' @ fromkeys names @ '': $'' @ digits), 200)))"
    if ok: "list_all (\<lambda>x. dollar_amount (e_amount x)
                 \<and> length (filter is_digit (e_amount x)) \<le> MAX_STR_DIGITS) (expenses s)"
  proof -
    from amounts_parse[OF ok] obtain vs where
      vs: "list_all2 (\<lambda>x v. amount_value (e_amount x) = Inr v) (expenses s) vs" by blast
    have 0: "list_all (\<lambda>x. \<exists>v. amount_value (e_amount x) = Inr v) (expenses s)"
      using ok dollar_amount_value by (auto simp: list_all_iff)
    have t: "total_loop (expenses s) 0 = Inr (sum_list vs)"
      using total_loop_sum[OF vs, of 0] by simp
    have 1: "\<exists>t. total_loop (expenses s) 0 = Inr t
              \<and> total_expense s = and_then (py_str t) (\<lambda>digits. Inr (Total (''$'' @ digits), 200))"
      using t by (simp add: total_expense_def)
    have "list_all (\<lambda>x. dollar_amount (e_amount x)
                 \<and> length (filter is_digit (e_amount x)) \<le> MAX_STR_DIGITS)
            (filter (\<lambda>x. month (e_date x) = i) (expenses s))"
      using ok by (auto simp: list_all_iff)
    from amounts_parse[OF this] obtain ws where
      ws: "list_all2 (\<lambda>x v. amount_value (e_amount x) = Inr v)
             (filter (\<lambda>x. month (e_date x) = i) (expenses s)) ws" by blast
    note m = month_loop_sum[OF ws, of 0 "[]"]
    have 2: "\<exists>t names. month_loop i (expenses s) (0, []) = Inr (t, names)
              \<and> total_by_month i s
                  = and_then (py_str t) (\<lambda>digits.
                      Inr (Text (''Total expense for '' @ fromkeys names @ '': $'' @ digits), 200))"
      using m by (simp add: total_by_month_def)
    from 0 1 2 show ?thesis by blast
  qed
  define body where "body = [(''description'', ''lunch''), (''amount'', ''abc''), (''category'', ''food'')]"
  define s1 where "s1 = snd (register ''s1'' ann_registers empty_db)"
  define s2 where "s2 = snd (add 1 \<lparr>year = 2024, month = 3, day = 15\<rparr> body s1)"
  have r1: "reachable s1" unfolding s1_def by (rule reachable.by_register[OF reachable.start])
  have u: "1 \<in> set (map u_id (users s1))"
    by (simp add: s1_def ann_registers_def register_def has_key_def empty_db_def next_id_def
        set_password_def)
  have r2: "reachable s2" unfolding s2_def by (rule reachable.by_add[OF r1 u])
  have "map (\<lambda>x. (e_amount x, month (e_date x))) (expenses s2) = [(''abc'', 3)]"
    by (simp add: s2_def s1_def ann_registers_def body_def add_def register_def has_key_def
        empty_db_def next_id_def set_password_def Let_def)
  then obtain x where x: "expenses s2 = [x]" "e_amount x = ''abc''" "month (e_date x) = 3" by auto
  have v: "amount_value ''abc'' = Inl ValueError" by (simp add: string_defs)
  have "total_expense s2 = Inl ValueError" using x v by (simp add: total_expense_def)
  moreover have "total_by_month 3 s2 = Inl ValueError" using x v by (simp add: total_by_month_def)
  moreover have "list_all (\<lambda>x. amount_value (e_amount x) = Inl ValueError) (expenses s2)"
    using x v by simp
  moreover have "expenses s2 \<noteq> []" using x by simp
  ultimately show ?thesis using r2 a by blast
qed

theorem totals_need_dollar_amounts_witness:
  "list_all (\<lambda>x. dollar_amount (e_amount x)
               \<and> length (filter is_digit (e_amount x)) \<le> MAX_STR_DIGITS) (expenses sample_db)
   \<and> total_loop (expenses sample_db) 0 = Inr 12
   \<and> total_expense sample_db = Inr (Total ''$12'', 200)
   \<and> month_loop 3 (expenses sample_db) (0, []) = Inr (15, ''MarchMarch'')
   \<and> total_by_month 3 sample_db = Inr (Text ''Total expense for March: $15'', 200)"
proof -
  have 1: "list_all (\<lambda>x. dollar_amount (e_amount x)
               \<and> length (filter is_digit (e_amount x)) \<le> MAX_STR_DIGITS) (expenses sample_db)"
    by (simp add: sample_db_def dollar_amount_def is_decimal_integer_def is_digit_def
        MAX_STR_DIGITS_def)
  have 2: "total_loop (expenses sample_db) 0 = Inr 12"
    by (simp add: sample_db_def sample_values)
  have 3: "month_loop 3 (expenses sample_db) (0, []) = Inr (15, ''MarchMarch'')"
    by (simp add: sample_db_def sample_values month_name_def MONTH_NAMES_def)
  have 4: "py_str 12 = Inr ''12''" "py_str 15 = Inr ''15''"
    by (simp_all add: string_defs)
  have 5: "fromkeys ''MarchMarch'' = ''March''" by (simp add: fromkeys_def)
  from totals_need_dollar_amounts[of sample_db 3] 1 2 3
  have "total_expense sample_db = and_then (py_str 12) (\<lambda>digits. Inr (Total (''$'' @ digits), 200))"
    and "total_by_month 3 sample_db
          = and_then (py_str 15) (\<lambda>digits.
              Inr (Text (''Total expense for '' @ fromkeys ''MarchMarch'' @ '': $'' @ digits), 200))"
    by auto
  then show ?thesis using 1 2 3 4 5 by simp
qed

text \<open>
  C10, as stated, fails: every amount of the reachable state \<open>long_db\<close> is the dollar sign
  followed by a decimal integer, yet its one amount, of more than \<open>MAX_STR_DIGITS\<close> digits,
  is not read, and both totals raise \<open>ValueError\<close>.
\<close>

theorem long_amount_not_read:
  "reachable long_db
   \<and> list_all (\<lambda>x. dollar_amount (e_amount x)) (expenses long_db)
   \<and> list_all (\<lambda>x. amount_value (e_amount x) = Inl ValueError) (expenses long_db)
   \<and> expenses long_db \<noteq> []
   \<and> total_expense long_db = Inl ValueError
   \<and> total_by_month 3 long_db = Inl ValueError"
proof -
  let ?a = "CHR ''$'' # replicate (Suc MAX_STR_DIGITS) (CHR ''9'')"
  define s1 where "s1 = snd (register ''s1'' ann_registers empty_db)"
  have r1: "reachable s1" unfolding s1_def by (rule reachable.by_register[OF reachable.start])
  have u: "1 \<in> set (map u_id (users s1))"
    by (simp add: s1_def ann_registers_def register_def has_key_def empty_db_def next_id_def
        set_password_def)
  have r: "reachable long_db" unfolding long_db_def s1_def[symmetric]
    by (rule reachable.by_add[OF r1 u])
  have "map (\<lambda>x. (e_amount x, month (e_date x))) (expenses long_db) = [(?a, 3)]"
    by (simp add: long_db_def ann_registers_def long_expense_def add_def register_def has_key_def
        empty_db_def next_id_def set_password_def Let_def)
  then obtain x where x: "expenses long_db = [x]" "e_amount x = ?a" "month (e_date x) = 3" by auto
  have d: "dollar_amount ?a"
    using nines_digits[of "Suc MAX_STR_DIGITS"]
    by (simp add: dollar_amount_def is_decimal_integer_def is_digit_def)
  have "filter is_digit ?a = replicate (Suc MAX_STR_DIGITS) (CHR ''9'')"
    using digits_takeWhile(3)[OF nines_digits, of "Suc MAX_STR_DIGITS"] by (simp add: is_digit_def)
  then have "length (filter is_digit ?a) > MAX_STR_DIGITS" by simp
  from dollar_amount_long[OF d this] have v: "amount_value ?a = Inl ValueError" .
  have "total_expense long_db = Inl ValueError" using x v by (simp add: total_expense_def)
  moreover have "total_by_month 3 long_db = Inl ValueError" using x v by (simp add: total_by_month_def)
  ultimately show ?thesis using r x d v by simp
qed

end
